theory Spec2Isabelle
  imports Complex_Main
begin

text \<open>
  A shallow embedding of four parts of the jackalope simulation engine, and what holds of
  them: the two constructions of the per-base mutation rates, event probabilities and
  event lengths (\<^verbatim>\<open>mutator.h\<close> and the constructor in \<^verbatim>\<open>molecular_evolution.cpp\<close>), the
  weighted reservoir sampler (\<^verbatim>\<open>molecular_evolution.cpp\<close>), the generator of random
  sequences (\<^verbatim>\<open>create_sequences.cpp\<close>) and the mutation log \<^verbatim>\<open>AllMutations\<close>
  (\<^verbatim>\<open>var_classes.h\<close>). The definitions come first, each from the source function it is
  named after; the statements and their proofs follow, part by part.
\<close>

section \<open>Machine integers\<close>

text \<open>
  The sources count with \<^verbatim>\<open>uint32\<close> (\<^verbatim>\<open>uint\<close> in the older files) and store event
  lengths as \<^verbatim>\<open>sint32\<close> (\<^verbatim>\<open>sint\<close>). The typedefs live in a header that is not part of
  the sources at hand; they are taken 32 bits wide, as they are named. Unsigned arithmetic
  wraps modulo \<open>2 ^ 32\<close>; \<^verbatim>\<open>static_cast<sint32>\<close> reads the 32 bits as two's complement.
\<close>

definition uint32 :: "nat \<Rightarrow> nat" where
  "uint32 n = n mod 2 ^ 32"

definition sint32 :: "nat \<Rightarrow> int" where
  "sint32 n = (int n + 2 ^ 31) mod 2 ^ 32 - 2 ^ 31"

section \<open>Rate model: \<^verbatim>\<open>mutator.h\<close>\<close>

text \<open>
  \<^verbatim>\<open>arma::mat\<close>: the dimensions and the element access \<^verbatim>\<open>Q(i, j)\<close>. A \<^verbatim>\<open>double\<close> is
  modelled by a real number (the claims on rates are stated over exact arithmetic).
\<close>

record mat =
  n_rows :: nat
  n_cols :: nat
  elem :: "nat \<Rightarrow> nat \<Rightarrow> real"

text \<open>\<^verbatim>\<open>Q.col(i)\<close> converted to a \<^verbatim>\<open>std::vector<double>\<close>.\<close>

definition col :: "mat \<Rightarrow> nat \<Rightarrow> real list" where
  "col Q i = map (\<lambda>r. elem Q r i) [0..<n_rows Q]"

text \<open>\<^verbatim>\<open>std::vector::resize(n)\<close> with value-initialised new elements.\<close>

definition resize :: "nat \<Rightarrow> 'a \<Rightarrow> 'a list \<Rightarrow> 'a list" where
  "resize n x xs = take n xs @ replicate (n - length xs) x"

text \<open>\<^verbatim>\<open>std::accumulate(qc.begin(), qc.end(), 0.0)\<close>.\<close>

definition accumulate :: "real list \<Rightarrow> real \<Rightarrow> real" where
  "accumulate xs init = fold (\<lambda>x s. s + x) xs init"

text \<open>
  The body of the loop over the four bases in \<^verbatim>\<open>fill_probs_q_tcag\<close>: \<open>qc\<close> is the
  vector \<^verbatim>\<open>probs[i]\<close> on entry; the result is the vector on exit and the rate \<^verbatim>\<open>qi\<close>.
\<close>

definition fill_probs_row ::
  "mat \<Rightarrow> real list \<Rightarrow> real list \<Rightarrow> nat \<Rightarrow> real list \<Rightarrow> real list \<times> real" where
  "fill_probs_row Q insertion_rates deletion_rates i qc =
     (let n_ins = uint32 (length insertion_rates);
          n_del = uint32 (length deletion_rates);
          n_muts = uint32 (uint32 (4 + n_ins) + n_del);
          qc1 = fold (\<lambda>j q. q @ [elem Q i j]) [0..<n_cols Q] qc;
          qc2 = qc1[i := 0];
          qc3 = fold (\<lambda>j q. q @ [insertion_rates ! j * 0.25]) [0..<n_ins] qc2;
          qc4 = fold (\<lambda>j q. q @ [deletion_rates ! j * 0.25]) [0..<n_del] qc3;
          qi = accumulate qc4 0;
          qc5 = fold (\<lambda>j q. q[j := q ! j / qi]) [0..<n_muts] qc4
      in (qc5, qi))"

text \<open>
  \<^verbatim>\<open>fill_probs_q_tcag\<close> works on the two output vectors it is handed; the model takes
  their contents on entry and returns their contents on exit. The argument \<open>pi_tcag\<close>
  is not read by the source.
\<close>

definition fill_probs_q_tcag ::
  "real list list \<Rightarrow> real list \<Rightarrow> mat \<Rightarrow> real list \<Rightarrow> real list \<Rightarrow> real list
     \<Rightarrow> real list list \<times> real list" where
  "fill_probs_q_tcag probs q_tcag Q pi_tcag insertion_rates deletion_rates =
     fold (\<lambda>i (ps, qs).
             (case fill_probs_row Q insertion_rates deletion_rates i (ps ! i) of
                (qc, qi) \<Rightarrow> (ps[i := qc], qs @ [qi])))
          [0..<4] (resize 4 [] probs, q_tcag)"

text \<open>
  \<^verbatim>\<open>fill_mut_lengths\<close> appends to the vector it is handed: four zeros, the insertion
  lengths, the negated deletion lengths.
\<close>

definition fill_mut_lengths :: "int list \<Rightarrow> real list \<Rightarrow> real list \<Rightarrow> int list" where
  "fill_mut_lengths mut_lengths insertion_rates deletion_rates =
     (let n_ins = uint32 (length insertion_rates);
          n_del = uint32 (length deletion_rates);
          m1 = fold (\<lambda>i m. m @ [0]) [0..<4] mut_lengths;
          m2 = fold (\<lambda>i m. m @ [sint32 (uint32 (i + 1))]) [0..<n_ins] m1;
          m3 = fold (\<lambda>i m. m @ [sint32 (uint32 (i + 1)) * (- 1)]) [0..<n_del] m2
      in m3)"

section \<open>Rate model: the constructor in \<^verbatim>\<open>molecular_evolution.cpp\<close>\<close>

text \<open>
  The fields the constructor of \<^verbatim>\<open>MutationSampler\<close> fills. \<open>rates\<close> is indexed by the
  base character; \<open>sampler\<close> is \<^verbatim>\<open>types.sampler\<close> and holds, for each of the four base
  indices, the vector handed to \<^verbatim>\<open>TableSampler\<close> (the class itself is not among the
  sources); \<open>event_lengths\<close> is \<^verbatim>\<open>types.event_lengths\<close>.
\<close>

record MutationSampler =
  rates :: "char \<rightharpoonup> real"
  sampler :: "real list list"
  event_lengths :: "int list"

text \<open>
  Modelled from the spec: \<^verbatim>\<open>mevo::bases\<close>, declared in a header that is not among the
  sources; the spec orders the alphabet T, C, A, G.
\<close>

definition bases :: string where
  "bases = ''TCAG''"

text \<open>
  The first statements of the constructor: both vectors are divided by their sum
  (\<^verbatim>\<open>arma::accu\<close>) and multiplied by the overall insertion and deletion rate.
\<close>

definition xi_i :: "real \<Rightarrow> real \<Rightarrow> real" where
  "xi_i xi psi = xi / (1 + 1 / psi)"

definition xi_d :: "real \<Rightarrow> real \<Rightarrow> real" where
  "xi_d xi psi = xi / (1 + psi)"

definition scale_rates :: "real \<Rightarrow> real list \<Rightarrow> real list" where
  "scale_rates x rel = map (\<lambda>r. r * x) (map (\<lambda>r. r / sum_list rel) rel)"

text \<open>
  The body of the constructor's loop over the four bases. Every entry is divided by
  \<^verbatim>\<open>qi = -1.0 * qc[i]\<close>, with no test that it is not zero: at a zero diagonal entry the
  source divides by a floating-point zero and the entries are infinite or not numbers, which
  the reals do not have (there \<open>x / 0 = 0\<close>). What is proved of the quotients is therefore
  stated for \<open>Q[i,i] \<noteq> 0\<close> only; \<^verbatim>\<open>qi\<close> itself is the same in both.
\<close>

definition sampler_row ::
  "mat \<Rightarrow> real list \<Rightarrow> real list \<Rightarrow> nat \<Rightarrow> nat \<Rightarrow> real list \<times> real" where
  "sampler_row Q ins del n_events i =
     (let qc = col Q i;
          qi = - 1 * (qc ! i);
          qc1 = qc[i := 0];
          qc2 = fold (\<lambda>j q. q @ [ins ! j]) [0..<uint32 (length ins)] qc1;
          qc3 = fold (\<lambda>j q. q @ [del ! j]) [0..<uint32 (length del)] qc2;
          qc4 = fold (\<lambda>j q. q[j := q ! j / qi]) [0..<n_events] qc3
      in (qc4, qi))"

definition MutationSampler_ctor ::
  "mat \<Rightarrow> real \<Rightarrow> real \<Rightarrow> real list \<Rightarrow> real list \<Rightarrow> real list \<Rightarrow> MutationSampler" where
  "MutationSampler_ctor Q xi psi pis rel_insertion_rates rel_deletion_rates =
     (let n_ins = uint32 (length rel_insertion_rates);
          n_del = uint32 (length rel_deletion_rates);
          n_events = uint32 (uint32 (4 + n_ins) + n_del);
          ins = scale_rates (xi_i xi psi) rel_insertion_rates;
          del = scale_rates (xi_d xi psi) rel_deletion_rates;
          ms0 = \<lparr>rates = Map.empty, sampler = replicate 4 [], event_lengths = []\<rparr>;
          ms1 = fold (\<lambda>i ms.
                        (case sampler_row Q ins del n_events i of
                           (qc, qi) \<Rightarrow>
                             ms\<lparr>rates := (rates ms)(bases ! i \<mapsto> qi),
                                sampler := (sampler ms)[i := qc]\<rparr>))
                     [0..<4] ms0;
          el0 = replicate n_events (0 :: int);
          el1 = fold (\<lambda>i el. el[uint32 (i + 4) := sint32 (uint32 (i + 1))]) [0..<n_ins] el0;
          el2 = fold (\<lambda>i el. el[uint32 (uint32 (i + 4) + n_ins) := sint32 (uint32 (i + 1)) * (- 1)])
                     [0..<n_del] el1
      in ms1\<lparr>event_lengths := el2\<rparr>)"

section \<open>Rate model: notions for the statements\<close>

text \<open>
  The sum of the off-diagonal entries of row \<open>i\<close> and of column \<open>i\<close> of a 4 by 4 matrix.
\<close>

definition row_offdiag :: "mat \<Rightarrow> nat \<Rightarrow> real" where
  "row_offdiag Q i = sum_list (map (elem Q i) (filter (\<lambda>j. j \<noteq> i) [0..<4]))"

definition col_offdiag :: "mat \<Rightarrow> nat \<Rightarrow> real" where
  "col_offdiag Q i = sum_list (map (\<lambda>r. elem Q r i) (filter (\<lambda>r. r \<noteq> i) [0..<4]))"

text \<open>
  The vector each construction has built for base \<open>i\<close> before it divides: the row (in
  \<^verbatim>\<open>fill_probs_q_tcag\<close>) or the column (in the constructor) of \<open>Q\<close> with the diagonal entry
  set to zero, followed by the indel rates, multiplied by 0.25 in \<^verbatim>\<open>fill_probs_q_tcag\<close>.
\<close>

definition fill_weights :: "mat \<Rightarrow> real list \<Rightarrow> real list \<Rightarrow> nat \<Rightarrow> real list" where
  "fill_weights Q ins del i =
     (map (elem Q i) [0..<4])[i := 0] @ map (\<lambda>x. x * 0.25) ins @ map (\<lambda>x. x * 0.25) del"

definition ctor_weights :: "mat \<Rightarrow> real list \<Rightarrow> real list \<Rightarrow> nat \<Rightarrow> real list" where
  "ctor_weights Q ins del i = (map (\<lambda>r. elem Q r i) [0..<4])[i := 0] @ ins @ del"

text \<open>
  The event-length vector in the spec's words: \<open>4 + I + D\<close> entries, 0 in each of the four
  substitution slots, \<open>+k\<close> for the insertion of length \<open>k\<close>, \<open>-k\<close> for the deletion of
  length \<open>k\<close>.
\<close>

definition event_lengths_spec :: "nat \<Rightarrow> nat \<Rightarrow> int list \<Rightarrow> bool" where
  "event_lengths_spec I D v \<longleftrightarrow>
     length v = 4 + I + D \<and>
     (\<forall>j < 4. v ! j = 0) \<and>
     (\<forall>k. 1 \<le> k \<and> k \<le> I \<longrightarrow> v ! (3 + k) = int k) \<and>
     (\<forall>k. 1 \<le> k \<and> k \<le> D \<longrightarrow> v ! (3 + I + k) = - int k)"

text \<open>
  Inputs for the examples: a symmetric matrix and one that is not, each with every diagonal
  entry the negative sum of the off-diagonal entries of its row (which
  \<open>diag_neg_rowsum\<close> says), and uniform base frequencies.
\<close>

definition Q_ex :: mat where
  "Q_ex = \<lparr>n_rows = 4, n_cols = 4, elem = (\<lambda>i j. if i = j then - 3 else 1)\<rparr>"

definition Q_skew :: mat where
  "Q_skew = \<lparr>n_rows = 4, n_cols = 4,
             elem = (\<lambda>i j. [ [- 9, 2, 3, 4], [1, - 8, 3, 4], [1, 2, - 7, 4], [1, 2, 3, - 6] ] ! i ! j)\<rparr>"

definition pis_ex :: "real list" where
  "pis_ex = [1 / 4, 1 / 4, 1 / 4, 1 / 4]"

definition diag_neg_rowsum :: "mat \<Rightarrow> bool" where
  "diag_neg_rowsum Q \<longleftrightarrow> list_all (\<lambda>b. elem Q b b = - row_offdiag Q b) [0..<4]"

section \<open>Weighted reservoir sampling: \<^verbatim>\<open>weighted_reservoir_\<close>\<close>

text \<open>
  The engine \<^verbatim>\<open>pcg32\<close> and the draws \<^verbatim>\<open>runif_01\<close> and \<^verbatim>\<open>runif_ab\<close> are declared in
  \<^verbatim>\<open>pcg.h\<close>, which is not among the sources. They are parameters of the model: an
  engine state of any type \<open>'e\<close> and two functions that return a draw and the next state.
\<close>

record 'e pcg =
  runif_01 :: "'e \<Rightarrow> real \<times> 'e"
  runif_ab :: "'e \<Rightarrow> real \<Rightarrow> real \<Rightarrow> real \<times> 'e"

text \<open>
  The variables of the function that live across iterations of its outer loop: \<open>cursor\<close>
  is the source's \<^verbatim>\<open>c\<close>. Three fields are not in the source and only record what it does:
  \<open>reads\<close> lists the indices at which the rate stream was evaluated, \<open>adopted\<close> the
  positions assigned to \<^verbatim>\<open>largest_pos\<close> inside the loop, \<open>redraws\<close> counts the iterations
  left through \<^verbatim>\<open>continue\<close>.
\<close>

record 'e wr_state =
  cursor :: nat
  largest_key :: real
  largest_pos :: nat
  engine :: 'e
  reads :: "nat list"
  adopted :: "nat list"
  redraws :: nat

datatype 'e wr_ctl = Next "'e wr_state" | Return "'e wr_state"

fun state_of :: "'e wr_ctl \<Rightarrow> 'e wr_state" where
  "state_of (Next s) = s"
| "state_of (Return s) = s"

text \<open>
  The inner loop
  \<^verbatim>\<open>while (X > wt_sum1 && i < end) { i++; wt_sum0 += rates[(i-1)]; wt_sum1 += rates[i]; }\<close>
  with the indices it reads. \<open>i < endp\<close> keeps \<open>i + 1\<close> clear of the 32-bit wrap-around.
\<close>

function wr_skip ::
  "(nat \<Rightarrow> real) \<Rightarrow> real \<Rightarrow> nat \<Rightarrow> nat \<Rightarrow> real \<Rightarrow> real \<Rightarrow> nat list
     \<Rightarrow> nat \<times> real \<times> real \<times> nat list" where
  "wr_skip rate X endp i wt_sum0 wt_sum1 rd =
     (if X > wt_sum1 \<and> i < endp
      then wr_skip rate X endp (i + 1) (wt_sum0 + rate i) (wt_sum1 + rate (i + 1)) (rd @ [i, i + 1])
      else (i, wt_sum0, wt_sum1, rd))"
  by pat_completeness auto
termination
  by (relation "measure (\<lambda>(rate, X, endp, i, w0, w1, rd). endp - i)") auto

declare wr_skip.simps [simp del]

text \<open>
  One iteration of the outer loop, entered with \<open>cursor s < endp\<close>: \<open>Return\<close> is the
  \<^verbatim>\<open>break\<close>, the first \<open>Next\<close> the \<^verbatim>\<open>continue\<close>, the second \<open>Next\<close> the adoption of
  position \<open>i\<close>. \<^verbatim>\<open>std::log\<close> is \<open>ln\<close> and \<^verbatim>\<open>std::pow\<close> is \<open>powr\<close> on the reals, which is
  what they compute, up to rounding, on positive weights and draws strictly between 0
  and 1.
\<close>

definition wr_iter :: "'e pcg \<Rightarrow> nat \<Rightarrow> (nat \<Rightarrow> real) \<Rightarrow> 'e wr_state \<Rightarrow> 'e wr_ctl" where
  "wr_iter G endp rate s =
     (case runif_01 G (engine s) of (r, e1) \<Rightarrow>
        let X = ln r / ln (largest_key s);
            i0 = cursor s + 1;
            w0 = rate (cursor s);
            w1 = w0 + rate i0
        in (case wr_skip rate X endp i0 w0 w1 (reads s @ [cursor s, i0]) of
              (i, wt_sum0, wt_sum1, rd) \<Rightarrow>
                if X > wt_sum1 then Return (s\<lparr>engine := e1, reads := rd\<rparr>)
                else if wt_sum0 \<ge> X
                then Next (s\<lparr>engine := e1, reads := rd, redraws := redraws s + 1\<rparr>)
                else
                  let w = rate i;
                      t = largest_key s powr w
                  in (case runif_ab G e1 t 1 of (r2, e2) \<Rightarrow>
                        Next (s\<lparr>cursor := i, largest_key := r2 powr (1 / w), largest_pos := i,
                                engine := e2, reads := rd @ [i], adopted := adopted s @ [i]\<rparr>))))"

text \<open>The statements before the loop.\<close>

definition wr_init :: "'e pcg \<Rightarrow> nat \<Rightarrow> (nat \<Rightarrow> real) \<Rightarrow> 'e \<Rightarrow> 'e wr_state" where
  "wr_init G start rate e =
     (case runif_01 G e of (r, e1) \<Rightarrow>
        \<lparr>cursor = start, largest_key = r powr (1 / rate start), largest_pos = start,
         engine = e1, reads = [start], adopted = [], redraws = 0\<rparr>)"

text \<open>
  The outer loop \<^verbatim>\<open>while (c < end)\<close>, run for at most \<open>n\<close> evaluations of its condition:
  \<open>Return\<close> when the loop was left, \<open>Next\<close> when it is still running.
\<close>

fun wr_run :: "nat \<Rightarrow> 'e pcg \<Rightarrow> nat \<Rightarrow> (nat \<Rightarrow> real) \<Rightarrow> 'e wr_ctl \<Rightarrow> 'e wr_ctl" where
  "wr_run 0 G endp rate ctl = ctl"
| "wr_run (Suc n) G endp rate (Return s) = Return s"
| "wr_run (Suc n) G endp rate (Next s) =
     wr_run n G endp rate (if cursor s < endp then wr_iter G endp rate s else Return s)"

text \<open>
  \<^verbatim>\<open>weighted_reservoir_\<close> (a name cannot end in an underscore here) with fuel: \<open>None\<close>
  when the loop has not been left after \<open>fuel\<close> evaluations of its condition, else the
  value returned.
\<close>

definition weighted_reservoir ::
  "nat \<Rightarrow> 'e pcg \<Rightarrow> nat \<Rightarrow> nat \<Rightarrow> (nat \<Rightarrow> real) \<Rightarrow> 'e \<Rightarrow> nat option" where
  "weighted_reservoir fuel G start endp rate e =
     (case wr_run fuel G endp rate (Next (wr_init G start rate e)) of
        Return s \<Rightarrow> Some (largest_pos s)
      | Next s \<Rightarrow> None)"

text \<open>The state after \<open>n\<close> evaluations of the loop condition, left or not.\<close>

definition wr_after ::
  "nat \<Rightarrow> 'e pcg \<Rightarrow> nat \<Rightarrow> nat \<Rightarrow> (nat \<Rightarrow> real) \<Rightarrow> 'e \<Rightarrow> 'e wr_state" where
  "wr_after n G start endp rate e = state_of (wr_run n G endp rate (Next (wr_init G start rate e)))"

text \<open>
  What holds of the state throughout a call on the range from \<open>start\<close> to \<open>endp\<close>.
\<close>

definition wr_inv :: "nat \<Rightarrow> nat \<Rightarrow> 'e wr_state \<Rightarrow> bool" where
  "wr_inv start endp s \<longleftrightarrow>
     start \<le> cursor s \<and> cursor s \<le> endp \<and>
     start \<le> largest_pos s \<and> largest_pos s \<le> cursor s \<and>
     (\<forall>i \<in> set (reads s). start \<le> i \<and> i \<le> endp) \<and>
     sorted_wrt (<) (adopted s) \<and>
     (\<forall>a \<in> set (adopted s). start < a \<and> a \<le> cursor s) \<and>
     length (adopted s) \<le> cursor s - start"

text \<open>
  Engines for the examples: one whose every draw is a half, and one that counts its draws
  and yields a half first, a quarter afterwards.
\<close>

definition G_half :: "unit pcg" where
  "G_half = \<lparr>runif_01 = (\<lambda>e. (1 / 2, e)), runif_ab = (\<lambda>e a b. (a + (b - a) / 2, e))\<rparr>"

definition G_count :: "nat pcg" where
  "G_count = \<lparr>runif_01 = (\<lambda>e. (if e = 0 then 1 / 2 else 1 / 4, e + 1)),
              runif_ab = (\<lambda>e a b. (a + (b - a) / 2, e + 1))\<rparr>"

section \<open>Random sequences: \<^verbatim>\<open>create_sequences_\<close>\<close>

text \<open>
  What a draw from \<^verbatim>\<open>std::gamma_distribution<double>\<close> can be: a finite number, or one of
  the values of a \<^verbatim>\<open>double\<close> that are not (an infinity or a NaN).
\<close>

datatype double = Finite real | NonFinite

text \<open>
  The engine, the gamma distribution and \<^verbatim>\<open>TableSampler::sample\<close> are not among the
  sources. They are parameters of the model: \<open>gamma_draw shape scale e\<close> is the draw
  \<^verbatim>\<open>distr(engine)\<close> and the next engine state, \<open>table_sample e\<close> the base index
  \<^verbatim>\<open>sampler.sample(engine)\<close> and the next engine state.
\<close>

record 'e sources =
  gamma_draw :: "real \<Rightarrow> real \<Rightarrow> 'e \<Rightarrow> double \<times> 'e"
  table_sample :: "'e \<Rightarrow> nat \<times> 'e"

text \<open>
  The conversion of a \<^verbatim>\<open>double\<close> to \<^verbatim>\<open>uint32\<close> truncates towards zero when the truncated
  value fits; otherwise C++ leaves the result undefined, and the parameter \<open>ub\<close> stands
  for whatever the platform yields.
\<close>

definition to_uint32 :: "(double \<Rightarrow> nat) \<Rightarrow> double \<Rightarrow> nat" where
  "to_uint32 ub d =
     (case d of
        Finite x \<Rightarrow> if - 1 < x \<and> x < 2 ^ 32 then nat \<lfloor>x\<rfloor> else ub d
      | NonFinite \<Rightarrow> ub d)"

text \<open>
  The length of one sequence (\<^verbatim>\<open>len\<close>), the next engine state and the gamma draws made
  (none or one). The shape and the scale are computed before the loop in the source; they
  are only used when \<open>len_sd > 0\<close>.
\<close>

definition seq_len ::
  "'e sources \<Rightarrow> (double \<Rightarrow> nat) \<Rightarrow> real \<Rightarrow> real \<Rightarrow> 'e \<Rightarrow> nat \<times> 'e \<times> double list" where
  "seq_len P ub len_mean len_sd e =
     (let gamma_shape = (len_mean * len_mean) / (len_sd * len_sd);
          gamma_scale = (len_sd * len_sd) / len_mean
      in if len_sd > 0
         then (case gamma_draw P gamma_shape gamma_scale e of
                 (d, e1) \<Rightarrow>
                   let len = to_uint32 ub d
                   in (if len < 1 then 1 else len, e1, [d]))
         else (to_uint32 ub (Finite len_mean), e, []))"

text \<open>
  \<^verbatim>\<open>seq.resize(len, 'x')\<close> and the loop that overwrites each position with a sampled base.
\<close>

definition fill_seq :: "'e sources \<Rightarrow> nat \<Rightarrow> string \<Rightarrow> 'e \<Rightarrow> string \<times> 'e" where
  "fill_seq P len seq e =
     fold (\<lambda>j (sq, e). case table_sample P e of (k, e1) \<Rightarrow> (sq[j := bases ! k], e1))
          [0..<len] (resize len (CHR ''x'') seq, e)"

text \<open>
  The loop over the sequences, as one thread runs it (the build without OpenMP, or
  \<open>n_cores = 1\<close>). The result is the output object, the engine state, and the gamma
  draws made, in order; the list of draws is not in the source and only records what it
  does. The source has no \<^verbatim>\<open>throw\<close> and no other way to fail.
\<close>

definition create_sequences ::
  "'e sources \<Rightarrow> (double \<Rightarrow> nat) \<Rightarrow> nat \<Rightarrow> real \<Rightarrow> real \<Rightarrow> 'e
     \<Rightarrow> string list \<times> 'e \<times> double list" where
  "create_sequences P ub n_seqs len_mean len_sd e =
     fold (\<lambda>i (seqs_out, e, draws).
             case seq_len P ub len_mean len_sd e of
               (len, e1, ds) \<Rightarrow>
                 (case fill_seq P len (seqs_out ! i) e1 of
                    (sq, e2) \<Rightarrow> (seqs_out[i := sq], e2, draws @ ds)))
          [0..<n_seqs] (replicate n_seqs [], e, [])"

text \<open>
  Sources for the examples: the engine state counts the gamma draws and every sampled
  base index is 0; every gamma draw is not finite in the first, \<open>7 / 2\<close> in the second.
\<close>

definition P_nonfinite :: "nat sources" where
  "P_nonfinite = \<lparr>gamma_draw = (\<lambda>shape scale e. (NonFinite, e + 1)), table_sample = (\<lambda>e. (0, e))\<rparr>"

definition P_seven :: "nat sources" where
  "P_seven = \<lparr>gamma_draw = (\<lambda>shape scale e. (Finite (7 / 2), e + 1)), table_sample = (\<lambda>e. (0, e))\<rparr>"

section \<open>The mutation log: \<^verbatim>\<open>AllMutations\<close>\<close>

text \<open>
  The log holds \<^verbatim>\<open>char*\<close> pointers to arrays it allocates with \<^verbatim>\<open>new char[]\<close> and frees
  with \<^verbatim>\<open>delete []\<close>, and copy assignment can be handed the object itself, so memory
  is explicit. The heap is a list of arrays: an address is an index, \<open>None\<close> marks a freed
  array, and \<^verbatim>\<open>new\<close> appends, so that it returns an address never used before. A pointer
  is an address or \<^verbatim>\<open>nullptr\<close> (\<open>None\<close>).
\<close>

type_synonym addr = nat
type_synonym ptr = "addr option"
type_synonym heap = "string option list"

definition NUL :: char where
  "NUL = CHR 0x00"

definition new_array :: "string \<Rightarrow> heap \<Rightarrow> addr \<times> heap" where
  "new_array bytes h = (length h, h @ [Some bytes])"

text \<open>\<^verbatim>\<open>delete [] p\<close>; on \<^verbatim>\<open>nullptr\<close> it does nothing.\<close>

definition delete_array :: "ptr \<Rightarrow> heap \<Rightarrow> heap" where
  "delete_array p h = (case p of None \<Rightarrow> h | Some a \<Rightarrow> h[a := None])"

text \<open>
  The array at an address. Reading a freed array or an address that was never allocated
  is undefined in C++; the model reads an empty array there.
\<close>

definition fetch :: "heap \<Rightarrow> addr \<Rightarrow> string" where
  "fetch h a = (if a < length h then (case h ! a of Some bytes \<Rightarrow> bytes | None \<Rightarrow> []) else [])"

text \<open>\<^verbatim>\<open>std::strlen\<close>: the number of bytes before the first terminator.\<close>

definition strlen :: "string \<Rightarrow> nat" where
  "strlen bytes = length (takeWhile (\<lambda>c. c \<noteq> NUL) bytes)"

text \<open>The C string a pointer designates: the bytes before the terminator.\<close>

definition c_str :: "heap \<Rightarrow> ptr \<Rightarrow> string option" where
  "c_str h p = (case p of None \<Rightarrow> None | Some a \<Rightarrow> Some (takeWhile (\<lambda>c. c \<noteq> NUL) (fetch h a)))"

record AllMutations =
  size_modifier :: "int list"
  old_pos :: "nat list"
  new_pos :: "nat list"
  nucleos :: "ptr list"

text \<open>
  Memory: the heap of character arrays, and the \<^verbatim>\<open>AllMutations\<close> objects by their
  address (\<^verbatim>\<open>this\<close>, \<^verbatim>\<open>&other\<close>).
\<close>

record memory =
  heap :: heap
  objs :: "nat \<Rightarrow> AllMutations"

definition upd :: "nat \<Rightarrow> (AllMutations \<Rightarrow> AllMutations) \<Rightarrow> memory \<Rightarrow> memory" where
  "upd this f m = m\<lparr>objs := (objs m)(this := f (objs m this))\<rparr>"

text \<open>
  \<^verbatim>\<open>fill_one_nucleos__(const char* nts, char** one_nucleos)\<close>: the result is the new value
  of the slot \<^verbatim>\<open>*one_nucleos\<close> and the heap. The fresh array has \<open>nts_size + 1\<close> cells,
  written one by one.
\<close>

definition fill_one_nucleos :: "ptr \<Rightarrow> ptr \<Rightarrow> heap \<Rightarrow> ptr \<times> heap" where
  "fill_one_nucleos nts one_nucleos h =
     (case nts of
        None \<Rightarrow> (one_nucleos, h)
      | Some a \<Rightarrow>
          let src = fetch h a;
              nts_size = strlen src;
              arr0 = replicate (nts_size + 1) NUL;
              arr1 = fold (\<lambda>i arr. arr[i := src ! i]) [0..<nts_size] arr0;
              arr2 = arr1[nts_size := NUL]
          in (case new_array arr2 h of (adr, h') \<Rightarrow> (Some adr, h')))"

text \<open>\<^verbatim>\<open>fill_one_nucleos__(const char& nt, char** one_nucleos)\<close>.\<close>

definition fill_one_nucleos_char :: "char \<Rightarrow> ptr \<Rightarrow> heap \<Rightarrow> ptr \<times> heap" where
  "fill_one_nucleos_char nt one_nucleos h =
     (case new_array [nt, NUL] h of (adr, h') \<Rightarrow> (Some adr, h'))"

text \<open>
  The loop \<^verbatim>\<open>for (i < nucleos.size()) fill_one_nucleos__(other.nucleos[i], &nucleos[i])\<close>
  that ends the copy constructor and the copy assignment. Each step reads both objects
  from memory as it is then.
\<close>

definition fill_step :: "nat \<Rightarrow> nat \<Rightarrow> nat \<Rightarrow> memory \<Rightarrow> memory" where
  "fill_step this other i m =
     (case fill_one_nucleos (nucleos (objs m other) ! i) (nucleos (objs m this) ! i) (heap m) of
        (p, h') \<Rightarrow> upd this (\<lambda>t. t\<lparr>nucleos := (nucleos t)[i := p]\<rparr>) (m\<lparr>heap := h'\<rparr>))"

definition fill_all :: "nat \<Rightarrow> nat \<Rightarrow> memory \<Rightarrow> memory" where
  "fill_all this other m = fold (fill_step this other) [0..<length (nucleos (objs m this))] m"

text \<open>The copy constructor, building the object at \<open>this\<close>.\<close>

definition copy_ctor :: "nat \<Rightarrow> nat \<Rightarrow> memory \<Rightarrow> memory" where
  "copy_ctor this other m =
     fill_all this other
       (m\<lparr>objs := (objs m)(this :=
            \<lparr>size_modifier = size_modifier (objs m other),
             old_pos = old_pos (objs m other),
             new_pos = new_pos (objs m other),
             nucleos = replicate (length (nucleos (objs m other))) None\<rparr>)\<rparr>)"

text \<open>\<^verbatim>\<open>operator=\<close>, statement by statement.\<close>

definition delete_all :: "nat \<Rightarrow> memory \<Rightarrow> memory" where
  "delete_all this m =
     fold (\<lambda>i m. m\<lparr>heap := delete_array (nucleos (objs m this) ! i) (heap m)\<rparr>)
          [0..<length (nucleos (objs m this))] m"

definition copy_assign :: "nat \<Rightarrow> nat \<Rightarrow> memory \<Rightarrow> memory" where
  "copy_assign this other m =
     (let m1 = upd this (\<lambda>t. t\<lparr>size_modifier := size_modifier (objs m other)\<rparr>) m;
          m2 = upd this (\<lambda>t. t\<lparr>old_pos := old_pos (objs m1 other)\<rparr>) m1;
          m3 = upd this (\<lambda>t. t\<lparr>new_pos := new_pos (objs m2 other)\<rparr>) m2;
          m4 = delete_all this m3;
          m5 = upd this (\<lambda>t. t\<lparr>nucleos := replicate (length (nucleos (objs m4 other))) None\<rparr>) m4
      in fill_all this other m5)"

text \<open>
  \<^verbatim>\<open>size()\<close>, \<^verbatim>\<open>empty()\<close> and, further down, \<^verbatim>\<open>insert\<close> carry the suffix \<open>_log\<close>, their names
  being taken in HOL.
\<close>

definition size_log :: "AllMutations \<Rightarrow> nat" where
  "size_log t = length (old_pos t)"

definition empty_log :: "AllMutations \<Rightarrow> bool" where
  "empty_log t \<longleftrightarrow> old_pos t = []"

definition clear :: "nat \<Rightarrow> memory \<Rightarrow> memory" where
  "clear this m =
     (if length (old_pos (objs m this)) = 0 then m
      else upd this (\<lambda>t. t\<lparr>size_modifier := [], old_pos := [], new_pos := [], nucleos := []\<rparr>) m)"

text \<open>
  \<^verbatim>\<open>push_front\<close> and \<^verbatim>\<open>push_back\<close>, each with a C string and with one character.
\<close>

definition push_front :: "nat \<Rightarrow> int \<Rightarrow> nat \<Rightarrow> nat \<Rightarrow> ptr \<Rightarrow> memory \<Rightarrow> memory" where
  "push_front this sm op np nts m =
     (let m1 = upd this (\<lambda>t. t\<lparr>size_modifier := sm # size_modifier t, old_pos := op # old_pos t,
                                new_pos := np # new_pos t, nucleos := None # nucleos t\<rparr>) m
      in case fill_one_nucleos nts (nucleos (objs m1 this) ! 0) (heap m1) of
           (p, h') \<Rightarrow> upd this (\<lambda>t. t\<lparr>nucleos := (nucleos t)[0 := p]\<rparr>) (m1\<lparr>heap := h'\<rparr>))"

definition push_front_char :: "nat \<Rightarrow> int \<Rightarrow> nat \<Rightarrow> nat \<Rightarrow> char \<Rightarrow> memory \<Rightarrow> memory" where
  "push_front_char this sm op np nt m =
     (let m1 = upd this (\<lambda>t. t\<lparr>size_modifier := sm # size_modifier t, old_pos := op # old_pos t,
                                new_pos := np # new_pos t, nucleos := None # nucleos t\<rparr>) m
      in case fill_one_nucleos_char nt (nucleos (objs m1 this) ! 0) (heap m1) of
           (p, h') \<Rightarrow> upd this (\<lambda>t. t\<lparr>nucleos := (nucleos t)[0 := p]\<rparr>) (m1\<lparr>heap := h'\<rparr>))"

definition push_back :: "nat \<Rightarrow> int \<Rightarrow> nat \<Rightarrow> nat \<Rightarrow> ptr \<Rightarrow> memory \<Rightarrow> memory" where
  "push_back this sm op np nts m =
     (let m1 = upd this (\<lambda>t. t\<lparr>size_modifier := size_modifier t @ [sm], old_pos := old_pos t @ [op],
                                new_pos := new_pos t @ [np], nucleos := nucleos t @ [None]\<rparr>) m;
          k = length (nucleos (objs m1 this)) - 1
      in case fill_one_nucleos nts (nucleos (objs m1 this) ! k) (heap m1) of
           (p, h') \<Rightarrow> upd this (\<lambda>t. t\<lparr>nucleos := (nucleos t)[k := p]\<rparr>) (m1\<lparr>heap := h'\<rparr>))"

definition push_back_char :: "nat \<Rightarrow> int \<Rightarrow> nat \<Rightarrow> nat \<Rightarrow> char \<Rightarrow> memory \<Rightarrow> memory" where
  "push_back_char this sm op np nt m =
     (let m1 = upd this (\<lambda>t. t\<lparr>size_modifier := size_modifier t @ [sm], old_pos := old_pos t @ [op],
                                new_pos := new_pos t @ [np], nucleos := nucleos t @ [None]\<rparr>) m;
          k = length (nucleos (objs m1 this)) - 1
      in case fill_one_nucleos_char nt (nucleos (objs m1 this) ! k) (heap m1) of
           (p, h') \<Rightarrow> upd this (\<lambda>t. t\<lparr>nucleos := (nucleos t)[k := p]\<rparr>) (m1\<lparr>heap := h'\<rparr>))"

text \<open>
  \<^verbatim>\<open>deque::insert(begin() + ind, x)\<close> and the two forms of \<^verbatim>\<open>deque::erase\<close>. C++ defines
  them for \<open>ind \<le> size\<close>, for \<open>ind < size\<close>, and for \<open>ind1 \<le> ind2 \<le> size\<close>. The
  overloads of the log follow: \<open>insert_log\<close> and \<open>insert_log_char\<close> for \<^verbatim>\<open>insert\<close>,
  \<open>erase\<close> for \<^verbatim>\<open>erase(ind)\<close> and \<open>erase2\<close> for \<^verbatim>\<open>erase(ind1, ind2)\<close>.
\<close>

definition insert_at :: "nat \<Rightarrow> 'a \<Rightarrow> 'a list \<Rightarrow> 'a list" where
  "insert_at ind x xs = take ind xs @ x # drop ind xs"

definition erase_at :: "nat \<Rightarrow> 'a list \<Rightarrow> 'a list" where
  "erase_at ind xs = take ind xs @ drop (ind + 1) xs"

definition erase_range :: "nat \<Rightarrow> nat \<Rightarrow> 'a list \<Rightarrow> 'a list" where
  "erase_range ind1 ind2 xs = take ind1 xs @ drop ind2 xs"

definition insert_log :: "nat \<Rightarrow> nat \<Rightarrow> int \<Rightarrow> nat \<Rightarrow> nat \<Rightarrow> ptr \<Rightarrow> memory \<Rightarrow> memory" where
  "insert_log this ind sm op np nts m =
     (let m1 = upd this (\<lambda>t. t\<lparr>size_modifier := insert_at ind sm (size_modifier t),
                                old_pos := insert_at ind op (old_pos t),
                                new_pos := insert_at ind np (new_pos t),
                                nucleos := insert_at ind None (nucleos t)\<rparr>) m
      in case fill_one_nucleos nts (nucleos (objs m1 this) ! ind) (heap m1) of
           (p, h') \<Rightarrow> upd this (\<lambda>t. t\<lparr>nucleos := (nucleos t)[ind := p]\<rparr>) (m1\<lparr>heap := h'\<rparr>))"

definition insert_log_char :: "nat \<Rightarrow> nat \<Rightarrow> int \<Rightarrow> nat \<Rightarrow> nat \<Rightarrow> char \<Rightarrow> memory \<Rightarrow> memory" where
  "insert_log_char this ind sm op np nt m =
     (let m1 = upd this (\<lambda>t. t\<lparr>size_modifier := insert_at ind sm (size_modifier t),
                                old_pos := insert_at ind op (old_pos t),
                                new_pos := insert_at ind np (new_pos t),
                                nucleos := insert_at ind None (nucleos t)\<rparr>) m
      in case fill_one_nucleos_char nt (nucleos (objs m1 this) ! ind) (heap m1) of
           (p, h') \<Rightarrow> upd this (\<lambda>t. t\<lparr>nucleos := (nucleos t)[ind := p]\<rparr>) (m1\<lparr>heap := h'\<rparr>))"

definition erase :: "nat \<Rightarrow> nat \<Rightarrow> memory \<Rightarrow> memory" where
  "erase this ind m =
     (let m1 = upd this (\<lambda>t. t\<lparr>size_modifier := erase_at ind (size_modifier t),
                                old_pos := erase_at ind (old_pos t),
                                new_pos := erase_at ind (new_pos t)\<rparr>) m;
          m2 = m1\<lparr>heap := delete_array (nucleos (objs m1 this) ! ind) (heap m1)\<rparr>
      in upd this (\<lambda>t. t\<lparr>nucleos := erase_at ind (nucleos t)\<rparr>) m2)"

definition erase2 :: "nat \<Rightarrow> nat \<Rightarrow> nat \<Rightarrow> memory \<Rightarrow> memory" where
  "erase2 this ind1 ind2 m =
     (let m1 = upd this (\<lambda>t. t\<lparr>size_modifier := erase_range ind1 ind2 (size_modifier t),
                                old_pos := erase_range ind1 ind2 (old_pos t),
                                new_pos := erase_range ind1 ind2 (new_pos t)\<rparr>) m;
          m2 = fold (\<lambda>ind m. m\<lparr>heap := delete_array (nucleos (objs m this) ! ind) (heap m)\<rparr>)
                    [ind1..<ind2] m1
      in upd this (\<lambda>t. t\<lparr>nucleos := erase_range ind1 ind2 (nucleos t)\<rparr>) m2)"

text \<open>
  The public operations that change a log, as values, so that a statement can range over
  all of them; the copy operations name the address of the source.
\<close>

datatype log_op =
  Push_front int nat nat ptr
  | Push_front_char int nat nat char
  | Push_back int nat nat ptr
  | Push_back_char int nat nat char
  | Insert nat int nat nat ptr
  | Insert_char nat int nat nat char
  | Erase nat
  | Erase_range nat nat
  | Clear
  | Copy_construct nat
  | Copy_assign nat

fun run_op :: "nat \<Rightarrow> log_op \<Rightarrow> memory \<Rightarrow> memory" where
  "run_op this (Push_front sm op np nts) m = push_front this sm op np nts m"
| "run_op this (Push_front_char sm op np nt) m = push_front_char this sm op np nt m"
| "run_op this (Push_back sm op np nts) m = push_back this sm op np nts m"
| "run_op this (Push_back_char sm op np nt) m = push_back_char this sm op np nt m"
| "run_op this (Insert ind sm op np nts) m = insert_log this ind sm op np nts m"
| "run_op this (Insert_char ind sm op np nt) m = insert_log_char this ind sm op np nt m"
| "run_op this (Erase ind) m = erase this ind m"
| "run_op this (Erase_range ind1 ind2) m = erase2 this ind1 ind2 m"
| "run_op this Clear m = clear this m"
| "run_op this (Copy_construct other) m = copy_ctor this other m"
| "run_op this (Copy_assign other) m = copy_assign this other m"

text \<open>The invariant of the four parallel deques.\<close>

definition equal_lengths :: "AllMutations \<Rightarrow> bool" where
  "equal_lengths t \<longleftrightarrow>
     length (size_modifier t) = length (old_pos t) \<and>
     length (new_pos t) = length (old_pos t) \<and>
     length (nucleos t) = length (old_pos t)"

text \<open>
  What an operation needs on entry: the invariant of the log it works on (of the source,
  for the copy operations: the constructor starts from raw memory), and an index for
  which C++ defines the operation.
\<close>

fun op_pre :: "nat \<Rightarrow> log_op \<Rightarrow> memory \<Rightarrow> bool" where
  "op_pre this (Insert ind sm op np nts) m \<longleftrightarrow>
     equal_lengths (objs m this) \<and> ind \<le> size_log (objs m this)"
| "op_pre this (Insert_char ind sm op np nt) m \<longleftrightarrow>
     equal_lengths (objs m this) \<and> ind \<le> size_log (objs m this)"
| "op_pre this (Erase ind) m \<longleftrightarrow>
     equal_lengths (objs m this) \<and> ind < size_log (objs m this)"
| "op_pre this (Erase_range ind1 ind2) m \<longleftrightarrow>
     equal_lengths (objs m this) \<and> ind1 \<le> ind2 \<and> ind2 \<le> size_log (objs m this)"
| "op_pre this (Copy_construct other) m \<longleftrightarrow> equal_lengths (objs m other)"
| "op_pre this (Copy_assign other) m \<longleftrightarrow> equal_lengths (objs m other)"
| "op_pre this other_op m \<longleftrightarrow> equal_lengths (objs m this)"

text \<open>
  The addresses among a list of pointers, and a log whose pointers all designate
  allocated arrays.
\<close>

definition addrs :: "ptr list \<Rightarrow> addr list" where
  "addrs ps = List.map_filter (\<lambda>p. p) ps"

definition valid_ptrs :: "heap \<Rightarrow> AllMutations \<Rightarrow> bool" where
  "valid_ptrs h t \<longleftrightarrow> list_all (\<lambda>a. a < length h) (addrs (nucleos t))"

text \<open>
  The copying loop as a function of the source's pointers alone: one
  \<^verbatim>\<open>fill_one_nucleos__\<close> into a null slot for each. It is compared with the loop on
  memory below.
\<close>

fun dup :: "heap \<Rightarrow> ptr list \<Rightarrow> ptr list \<times> heap" where
  "dup h [] = ([], h)"
| "dup h (p # ps) =
     (case fill_one_nucleos p None h of
        (q, h1) \<Rightarrow> (case dup h1 ps of (qs, h2) \<Rightarrow> (q # qs, h2)))"

text \<open>
  A memory for the examples: one log at address 0 holding the insertion of \<open>AC\<close> at
  position 3, its string in the array at heap address 0; address 1 holds an empty log.
\<close>

definition m_ex :: memory where
  "m_ex = \<lparr>heap = [Some [CHR ''A'', CHR ''C'', NUL]],
           objs = (\<lambda>a. if a = 0
                        then \<lparr>size_modifier = [2], old_pos = [3], new_pos = [3], nucleos = [Some 0]\<rparr>
                        else \<lparr>size_modifier = [], old_pos = [], new_pos = [], nucleos = []\<rparr>)\<rparr>"

section \<open>Rate model: event lengths, rates and probabilities\<close>

text \<open>Casts within range, and loops that push or overwrite in closed form.\<close>

lemma uint32_id: "n < 2 ^ 32 \<Longrightarrow> uint32 n = n"
  by (simp add: uint32_def)

lemma sint32_id: "n < 2 ^ 31 \<Longrightarrow> sint32 n = int n"
proof -
  assume a: "n < 2 ^ 31"
  then have "int n < 2 ^ 31" by (metis of_nat_less_iff of_nat_numeral of_nat_power)
  then have "0 \<le> int n + 2 ^ 31 \<and> int n + 2 ^ 31 < 2 ^ 32" by simp
  then have "(int n + 2 ^ 31) mod 2 ^ 32 = int n + 2 ^ 31" by simp
  then show ?thesis by (simp add: sint32_def)
qed

lemma fold_push: "fold (\<lambda>j q. q @ [f j]) xs q = q @ map f xs"
  by (induction xs arbitrary: q) auto

lemma fold_update_take:
  "m \<le> length q \<Longrightarrow>
   fold (\<lambda>j q. q[j := g (q ! j)]) [0..<m] q = map g (take m q) @ drop m q"
proof (induction m)
  case 0
  then show ?case by simp
next
  case (Suc m)
  then have m: "m < length q" by simp
  have "fold (\<lambda>j q. q[j := g (q ! j)]) [0..<Suc m] q
        = (map g (take m q) @ drop m q)[m := g ((map g (take m q) @ drop m q) ! m)]"
    using Suc by simp
  also have "\<dots> = map g (take m q) @ (drop m q)[0 := g (q ! m)]"
    using m by (simp add: list_update_append nth_append)
  also have "\<dots> = map g (take (Suc m) q) @ drop (Suc m) q"
    using m by (simp add: take_Suc_conv_app_nth Cons_nth_drop_Suc [symmetric])
  finally show ?case .
qed

lemma fold_update_all:
  "length q = m \<Longrightarrow> fold (\<lambda>j q. q[j := g (q ! j)]) [0..<m] q = map g q"
  using fold_update_take [of m q g] by simp

lemma accumulate_sum: "accumulate xs a = a + sum_list xs"
  unfolding accumulate_def by (induction xs arbitrary: a) auto

lemma fill_mut_lengths_closed:
  assumes "length ins < 2 ^ 31" "length del < 2 ^ 31"
  shows "fill_mut_lengths ml ins del =
           ml @ replicate 4 0 @ map (\<lambda>i. int (i + 1)) [0..<length ins]
              @ map (\<lambda>i. - int (i + 1)) [0..<length del]"
proof -
  have i: "uint32 (length ins) = length ins" and d: "uint32 (length del) = length del"
    using assms by (simp_all add: uint32_id)
  have c: "\<And>n i. n < 2 ^ 31 \<Longrightarrow> i < n \<Longrightarrow> sint32 (uint32 (i + 1)) = int (i + 1)"
    by (simp add: uint32_id sint32_id)
  have m1: "map (\<lambda>i. sint32 (uint32 (i + 1))) [0..<length ins] = map (\<lambda>i. int (i + 1)) [0..<length ins]"
    using c [OF assms(1)] by simp
  have m2: "map (\<lambda>i. sint32 (uint32 (i + 1)) * (- 1)) [0..<length del] = map (\<lambda>i. - int (i + 1)) [0..<length del]"
    using c [OF assms(2)] by simp
  have z: "map (\<lambda>i. 0::int) [0..<4] = replicate 4 0"
    by (simp add: map_replicate_const)
  show ?thesis
    unfolding fill_mut_lengths_def Let_def i d fold_push m1 m2 z by simp
qed

lemma fold_update_range:
  "off + n \<le> length el \<Longrightarrow>
   fold (\<lambda>i el. el[i + off := f i]) [0..<n] el
     = take off el @ map f [0..<n] @ drop (off + n) el"
proof (induction n)
  case 0
  then show ?case by simp
next
  case (Suc n)
  then have b: "off + n < length el" by simp
  have "fold (\<lambda>i el. el[i + off := f i]) [0..<Suc n] el
        = (take off el @ map f [0..<n] @ drop (off + n) el)[n + off := f n]"
    using Suc by simp
  also have "\<dots> = take off el @ map f [0..<n] @ (drop (off + n) el)[0 := f n]"
    using b by (simp add: list_update_append)
  also have "(drop (off + n) el)[0 := f n] = f n # drop (off + Suc n) el"
    using b by (simp add: Cons_nth_drop_Suc [symmetric])
  finally show ?case by simp
qed

lemma ctor_event_lengths_closed:
  assumes "length ri < 2 ^ 31" "length rd < 2 ^ 31" "4 + length ri + length rd < 2 ^ 32"
  shows "event_lengths (MutationSampler_ctor Q xi psi pis ri rd) =
           replicate 4 0 @ map (\<lambda>i. int (i + 1)) [0..<length ri]
              @ map (\<lambda>i. - int (i + 1)) [0..<length rd]"
proof -
  let ?I = "length ri" and ?D = "length rd"
  have i: "uint32 ?I = ?I" and d: "uint32 ?D = ?D"
    using assms by (simp_all add: uint32_id)
  have n: "uint32 (uint32 (4 + ?I) + ?D) = 4 + ?I + ?D"
    using assms by (simp add: uint32_id)
  have f1: "fold (\<lambda>i el. el[uint32 (i + 4) := sint32 (uint32 (i + 1))]) [0..<?I] el
            = fold (\<lambda>i el. el[i + 4 := int (i + 1)]) [0..<?I] el" for el
    using assms by (intro fold_cong) (auto simp: uint32_id sint32_id)
  have f2: "fold (\<lambda>i el. el[uint32 (uint32 (i + 4) + ?I) := sint32 (uint32 (i + 1)) * (- 1)]) [0..<?D] el
            = fold (\<lambda>i el. el[i + (4 + ?I) := - int (i + 1)]) [0..<?D] el" for el
    using assms by (intro fold_cong) (auto simp: uint32_id sint32_id add.commute add.left_commute)
  have "event_lengths (MutationSampler_ctor Q xi psi pis ri rd)
        = fold (\<lambda>i el. el[i + (4 + ?I) := - int (i + 1)]) [0..<?D]
            (fold (\<lambda>i el. el[i + 4 := int (i + 1)]) [0..<?I] (replicate (4 + ?I + ?D) 0))"
    unfolding MutationSampler_ctor_def Let_def i d n f1 f2 by simp
  also have "fold (\<lambda>i el. el[i + 4 := int (i + 1)]) [0..<?I] (replicate (4 + ?I + ?D) 0)
             = replicate 4 0 @ map (\<lambda>i. int (i + 1)) [0..<?I] @ replicate ?D 0"
    by (subst fold_update_range) simp_all
  also have "fold (\<lambda>i el. el[i + (4 + ?I) := - int (i + 1)]) [0..<?D]
               (replicate 4 0 @ map (\<lambda>i. int (i + 1)) [0..<?I] @ replicate ?D 0)
             = replicate 4 0 @ map (\<lambda>i. int (i + 1)) [0..<?I] @ map (\<lambda>i. - int (i + 1)) [0..<?D]"
    by (subst fold_update_range) simp_all
  finally show ?thesis .
qed

lemma upt4: "[0..<4] = [0, 1, 2, 3::nat]"
  by (simp add: upt_rec)

lemma less4: "i < 4 \<Longrightarrow> i = 0 \<or> i = 1 \<or> i = 2 \<or> i = (3::nat)"
  by arith

lemma map_nth_fun: "map (\<lambda>j. f (xs ! j)) [0..<length xs] = map f xs"
  by (rule nth_equalityI) simp_all

lemma fill_probs_row_closed:
  assumes "n_cols Q = 4" "4 + length ins + length del < 2 ^ 32"
  shows "fill_probs_row Q ins del i [] =
           (map (\<lambda>x. x / sum_list (fill_weights Q ins del i)) (fill_weights Q ins del i),
            sum_list (fill_weights Q ins del i))"
proof -
  have i: "uint32 (length ins) = length ins" and d: "uint32 (length del) = length del"
    and n: "uint32 (uint32 (4 + length ins) + length del) = 4 + length ins + length del"
    using assms by (simp_all add: uint32_id)
  have w: "(([] @ map (elem Q i) [0..<4])[i := 0] @ map (\<lambda>j. ins ! j * 0.25) [0..<length ins])
             @ map (\<lambda>j. del ! j * 0.25) [0..<length del] = fill_weights Q ins del i"
    using map_nth_fun [of "\<lambda>x. x * 0.25" ins] map_nth_fun [of "\<lambda>x. x * 0.25" del]
    by (simp add: fill_weights_def)
  have l: "length (fill_weights Q ins del i) = 4 + length ins + length del"
    by (simp add: fill_weights_def)
  show ?thesis
    unfolding fill_probs_row_def Let_def i d n assms(1) fold_push w accumulate_sum
    using fold_update_all [OF l, of "\<lambda>x. x / sum_list (fill_weights Q ins del i)"] by simp
qed

lemma fill_probs_q_tcag_closed:
  "fill_probs_q_tcag [] [] Q pt ins del =
     (map (\<lambda>i. fst (fill_probs_row Q ins del i [])) [0..<4],
      map (\<lambda>i. snd (fill_probs_row Q ins del i [])) [0..<4])"
  by (simp add: fill_probs_q_tcag_def resize_def upt4 eval_nat_numeral split: prod.splits)

lemma sum_fill_weights:
  "i < 4 \<Longrightarrow> sum_list (fill_weights Q ins del i) = row_offdiag Q i + (sum_list ins + sum_list del) / 4"
proof -
  have m: "sum_list (map (\<lambda>x. x / 4) xs) = sum_list xs / 4" for xs :: "real list"
    by (induction xs) (simp_all add: add_divide_distrib)
  assume "i < 4"
  then show ?thesis
    using less4 [of i] by (auto simp: fill_weights_def row_offdiag_def upt4 m add_divide_distrib)
qed

lemma sampler_row_closed:
  assumes "n_rows Q = 4" "4 + length ins + length del < 2 ^ 32" "i < 4"
  shows "sampler_row Q ins del (4 + length ins + length del) i =
           (map (\<lambda>x. x / (- elem Q i i)) (ctor_weights Q ins del i), - elem Q i i)"
proof -
  have i: "uint32 (length ins) = length ins" and d: "uint32 (length del) = length del"
    using assms by (simp_all add: uint32_id)
  have w: "((col Q i)[i := 0] @ map (\<lambda>j. ins ! j) [0..<length ins])
             @ map (\<lambda>j. del ! j) [0..<length del] = ctor_weights Q ins del i"
    by (simp add: ctor_weights_def col_def assms(1) map_nth)
  have l: "length (ctor_weights Q ins del i) = 4 + length ins + length del"
    by (simp add: ctor_weights_def)
  have q: "col Q i ! i = elem Q i i"
    using assms(3) by (simp add: col_def assms(1))
  have e: "- 1 * elem Q i i = - elem Q i i" by simp
  show ?thesis
    unfolding sampler_row_def Let_def i d fold_push w q e
    using fold_update_all [OF l, of "\<lambda>x. x / (- elem Q i i)"] by simp
qed

lemma sum_ctor_weights:
  "i < 4 \<Longrightarrow> sum_list (ctor_weights Q ins del i) = col_offdiag Q i + sum_list ins + sum_list del"
  using less4 [of i] by (auto simp: ctor_weights_def col_offdiag_def upt4)

lemma sum_scale_rates: "sum_list rel \<noteq> 0 \<Longrightarrow> sum_list (scale_rates x rel) = x"
proof -
  have m: "sum_list (map (\<lambda>r. r / s * x) xs) = sum_list xs / s * x" for xs :: "real list" and s
    by (induction xs) (simp_all add: add_divide_distrib distrib_right)
  assume "sum_list rel \<noteq> 0"
  then show ?thesis by (simp only: scale_rates_def map_map comp_def m) simp
qed

lemma length_scale_rates: "length (scale_rates x rel) = length rel"
  by (simp add: scale_rates_def)

lemma xi_split:
  assumes "0 < psi"
  shows "xi_i xi psi + xi_d xi psi = xi"
proof -
  have "1 + 1 / psi = (psi + 1) / psi"
    using assms by (simp add: field_simps)
  then have "xi_i xi psi = xi * psi / (psi + 1)"
    by (simp add: xi_i_def)
  then have "xi_i xi psi + xi_d xi psi = (xi * psi + xi) / (psi + 1)"
    by (simp add: xi_d_def add_divide_distrib add.commute)
  also have "\<dots> = xi * (psi + 1) / (psi + 1)"
    by (simp add: distrib_left)
  also have "\<dots> = xi"
    using assms by simp
  finally show ?thesis .
qed

lemma ctor_fields:
  assumes "length ri < 2 ^ 32" "length rd < 2 ^ 32" "4 + length ri + length rd < 2 ^ 32"
  shows "sampler (MutationSampler_ctor Q xi psi pis ri rd) =
           map (\<lambda>i. fst (sampler_row Q (scale_rates (xi_i xi psi) ri) (scale_rates (xi_d xi psi) rd)
                       (4 + length ri + length rd) i)) [0..<4]"
    and "i < 4 \<Longrightarrow> rates (MutationSampler_ctor Q xi psi pis ri rd) (bases ! i) =
           Some (snd (sampler_row Q (scale_rates (xi_i xi psi) ri) (scale_rates (xi_d xi psi) rd)
                       (4 + length ri + length rd) i))"
proof -
  have n: "uint32 (uint32 (4 + uint32 (length ri)) + uint32 (length rd)) = 4 + length ri + length rd"
    using assms by (simp add: uint32_id)
  show "sampler (MutationSampler_ctor Q xi psi pis ri rd) =
           map (\<lambda>i. fst (sampler_row Q (scale_rates (xi_i xi psi) ri) (scale_rates (xi_d xi psi) rd)
                       (4 + length ri + length rd) i)) [0..<4]"
    unfolding MutationSampler_ctor_def Let_def n
    by (simp add: upt4 eval_nat_numeral split: prod.splits)
  show "i < 4 \<Longrightarrow> rates (MutationSampler_ctor Q xi psi pis ri rd) (bases ! i) =
           Some (snd (sampler_row Q (scale_rates (xi_i xi psi) ri) (scale_rates (xi_d xi psi) rd)
                       (4 + length ri + length rd) i))"
    unfolding MutationSampler_ctor_def Let_def n
    using less4 [of i] by (auto simp: upt4 bases_def split: prod.splits)
qed

lemma event_lengths_spec_closed:
  "event_lengths_spec I D
     (replicate 4 0 @ map (\<lambda>i. int (i + 1)) [0..<I] @ map (\<lambda>i. - int (i + 1)) [0..<D])"
  unfolding event_lengths_spec_def
  by (auto simp: nth_append)

lemma fill_mut_lengths_push:
  "fill_mut_lengths ml ins del =
     ml @ map (\<lambda>i. 0) [0..<4]
        @ map (\<lambda>i. sint32 (uint32 (i + 1))) [0..<uint32 (length ins)]
        @ map (\<lambda>i. sint32 (uint32 (i + 1)) * (- 1)) [0..<uint32 (length del)]"
  unfolding fill_mut_lengths_def Let_def fold_push by simp

lemma fill_mut_lengths_append:
  "fill_mut_lengths ml ins del = ml @ fill_mut_lengths [] ins del"
  unfolding fill_mut_lengths_push by simp

text \<open>
  Claim C8, as the code has it. For indel length counts \<open>I\<close> and \<open>D\<close> below \<open>2^31\<close>, the
  largest value the signed 32-bit element type holds being \<open>2^31 - 1\<close>:
  \<^verbatim>\<open>fill_mut_lengths\<close> appends to the vector it is handed exactly \<open>4 + I + D\<close> elements, 0 in
  the four substitution slots, \<open>+k\<close> in the slot of insertion length \<open>k\<close> and \<open>-k\<close> in the
  slot of deletion length \<open>k\<close>; and when \<open>4 + I + D\<close> is below \<open>2^32\<close>, so that the unsigned
  32-bit \<^verbatim>\<open>n_events\<close> holds it, the constructor of \<^verbatim>\<open>MutationSampler\<close> builds the same
  vector.
\<close>

theorem event_lengths_both_paths:
  assumes "length ins < 2 ^ 31" "length del < 2 ^ 31"
  shows "event_lengths_spec (length ins) (length del) (fill_mut_lengths [] ins del) \<and>
         fill_mut_lengths ml ins del = ml @ fill_mut_lengths [] ins del \<and>
         (4 + length ins + length del < 2 ^ 32 \<longrightarrow>
            event_lengths_spec (length ins) (length del)
              (event_lengths (MutationSampler_ctor Q xi psi pis ins del)) \<and>
            event_lengths (MutationSampler_ctor Q xi psi pis ins del) = fill_mut_lengths [] ins del)"
proof -
  have a: "fill_mut_lengths [] ins del =
             replicate 4 0 @ map (\<lambda>i. int (i + 1)) [0..<length ins]
               @ map (\<lambda>i. - int (i + 1)) [0..<length del]"
    using fill_mut_lengths_closed [OF assms(1,2), of "[]"] by simp
  have b: "event_lengths_spec (length ins) (length del) (fill_mut_lengths [] ins del)"
    unfolding a by (rule event_lengths_spec_closed)
  have c: "event_lengths (MutationSampler_ctor Q xi psi pis ins del) = fill_mut_lengths [] ins del"
    if "4 + length ins + length del < 2 ^ 32"
    unfolding a by (rule ctor_event_lengths_closed [OF assms that])
  show ?thesis
    using b c fill_mut_lengths_append [of ml ins del] by simp
qed

lemma replicate4: "replicate 4 x = [x, x, x, x]"
  by (simp add: eval_nat_numeral)

text \<open>
  Two insertion lengths and one deletion length, appended to a vector that holds a 7.
\<close>

theorem event_lengths_both_paths_witness:
  "length [1 / 2, 1 / 2 :: real] < 2 ^ 31 \<and> length [1 :: real] < 2 ^ 31 \<and>
   4 + length [1 / 2, 1 / 2 :: real] + length [1 :: real] < 2 ^ 32 \<and>
   event_lengths_spec (length [1 / 2, 1 / 2 :: real]) (length [1 :: real])
     (fill_mut_lengths [] [1 / 2, 1 / 2] [1]) \<and>
   event_lengths_spec (length [1 / 2, 1 / 2 :: real]) (length [1 :: real])
     (event_lengths (MutationSampler_ctor Q_ex 1 1 pis_ex [1 / 2, 1 / 2] [1])) \<and>
   event_lengths (MutationSampler_ctor Q_ex 1 1 pis_ex [1 / 2, 1 / 2] [1]) = [0, 0, 0, 0, 1, 2, - 1] \<and>
   fill_mut_lengths [7] [1 / 2, 1 / 2] [1] = [7, 0, 0, 0, 0, 1, 2, - 1]"
  using event_lengths_both_paths [of "[1 / 2, 1 / 2]" "[1]" "[7]" Q_ex 1 1 pis_ex]
  by (simp add: fill_mut_lengths_closed upt_conv_Cons replicate4)

lemma sint32_wraps: "sint32 (uint32 (2 ^ 31)) = - (2 ^ 31)"
  by (simp add: sint32_def uint32_def)

lemma insertion_slot_wraps:
  assumes "length ins = 2 ^ 31"
  shows "fill_mut_lengths [] ins del ! (3 + 2 ^ 31) = - (2 ^ 31)"
proof -
  have u: "uint32 (length ins) = 2 ^ 31"
    by (simp add: assms uint32_def)
  have i: "(3 :: nat) + 2 ^ 31 = 4 + (2 ^ 31 - 1)" by simp
  have l: "(2 :: nat) ^ 31 - 1 < 2 ^ 31" by simp
  have "fill_mut_lengths [] ins del ! (4 + (2 ^ 31 - 1))
          = (map (\<lambda>i. sint32 (uint32 (i + 1))) [0..<2 ^ 31]
             @ map (\<lambda>i. sint32 (uint32 (i + 1)) * (- 1)) [0..<uint32 (length del)]) ! (2 ^ 31 - 1)"
    unfolding fill_mut_lengths_push u
    using nth_append_length_plus [of "map (\<lambda>i. 0 :: int) [0..<4]" _ "2 ^ 31 - 1"]
    by (simp del: upt_Suc)
  also have "\<dots> = map (\<lambda>i. sint32 (uint32 (i + 1))) [0..<2 ^ 31] ! (2 ^ 31 - 1)"
    using l by (simp only: nth_append length_map length_upt diff_zero if_True)
  also have "\<dots> = sint32 (uint32 ((2 ^ 31 - 1) + 1))"
    using l by (simp only: nth_map length_upt diff_zero nth_upt add_0)
  also have "(2 :: nat) ^ 31 - 1 + 1 = 2 ^ 31" by simp
  finally show ?thesis unfolding i sint32_wraps .
qed

text \<open>
  Claim C8 as stated fails: with \<open>I = 2^31\<close> insertion lengths and no deletion length, the
  slot of insertion length \<open>2^31\<close> (index \<open>3 + 2^31\<close>) holds
  \<^verbatim>\<open>static_cast<sint32>(i+1)\<close> at \<open>i + 1 = 2^31\<close>, which is \<open>- 2^31\<close>, not \<open>+ 2^31\<close>: the
  element type has no such value.
\<close>

theorem insertion_length_wraps:
  "length (replicate (2 ^ 31) (1 :: real)) = 2 ^ 31 \<and>
   fill_mut_lengths [] (replicate (2 ^ 31) 1) [] ! (3 + 2 ^ 31) = - (2 ^ 31) \<and>
   \<not> event_lengths_spec (2 ^ 31) 0 (fill_mut_lengths [] (replicate (2 ^ 31) 1) [])"
proof -
  have l: "length (replicate (2 ^ 31) (1 :: real)) = 2 ^ 31" by (rule length_replicate)
  have v: "fill_mut_lengths [] (replicate (2 ^ 31) (1 :: real)) [] ! (3 + 2 ^ 31) = - (2 ^ 31)"
    by (rule insertion_slot_wraps [OF l])
  have "\<not> event_lengths_spec (2 ^ 31) 0 (fill_mut_lengths [] (replicate (2 ^ 31) 1) [])"
  proof
    assume "event_lengths_spec (2 ^ 31) 0 (fill_mut_lengths [] (replicate (2 ^ 31) 1) [])"
    then have "\<forall>k. 1 \<le> k \<and> k \<le> 2 ^ 31 \<longrightarrow>
        fill_mut_lengths [] (replicate (2 ^ 31) (1 :: real)) [] ! (3 + k) = int k"
      unfolding event_lengths_spec_def by blast
    then have "fill_mut_lengths [] (replicate (2 ^ 31) (1 :: real)) [] ! (3 + 2 ^ 31) = int (2 ^ 31)"
      by (metis le_refl one_le_numeral one_le_power)
    then show False unfolding v by simp
  qed
  with l v show ?thesis by blast
qed

lemma q_tcag_nth:
  assumes "n_cols Q = 4" "4 + length ins + length del < 2 ^ 32" "b < 4"
  shows "snd (fill_probs_q_tcag [] [] Q pt ins del) ! b
           = row_offdiag Q b + (sum_list ins + sum_list del) / 4"
  using assms(3)
  by (simp add: fill_probs_q_tcag_closed fill_probs_row_closed [OF assms(1,2)] sum_fill_weights)

lemma probs_nth:
  assumes "n_cols Q = 4" "4 + length ins + length del < 2 ^ 32" "b < 4"
  shows "fst (fill_probs_q_tcag [] [] Q pt ins del) ! b
           = map (\<lambda>x. x / sum_list (fill_weights Q ins del b)) (fill_weights Q ins del b)"
  using assms(3)
  by (simp add: fill_probs_q_tcag_closed fill_probs_row_closed [OF assms(1,2)])

lemma ctor_rates_nth:
  assumes "n_rows Q = 4" "4 + length ri + length rd < 2 ^ 32" "b < 4"
  shows "rates (MutationSampler_ctor Q xi psi pis ri rd) (bases ! b) = Some (- elem Q b b)"
proof -
  have l: "length ri < 2 ^ 32" "length rd < 2 ^ 32" using assms(2) by simp_all
  have s: "4 + length (scale_rates (xi_i xi psi) ri) + length (scale_rates (xi_d xi psi) rd) < 2 ^ 32"
    using assms(2) by (simp add: length_scale_rates)
  show ?thesis
    using sampler_row_closed [OF assms(1) s assms(3)] ctor_fields(2) [OF l assms(2,3)]
    by (simp add: length_scale_rates)
qed

lemma ctor_sampler_nth:
  assumes "n_rows Q = 4" "4 + length ri + length rd < 2 ^ 32" "b < 4"
  shows "sampler (MutationSampler_ctor Q xi psi pis ri rd) ! b
           = map (\<lambda>x. x / (- elem Q b b))
               (ctor_weights Q (scale_rates (xi_i xi psi) ri) (scale_rates (xi_d xi psi) rd) b)"
proof -
  have l: "length ri < 2 ^ 32" "length rd < 2 ^ 32" using assms(2) by simp_all
  have s: "4 + length (scale_rates (xi_i xi psi) ri) + length (scale_rates (xi_d xi psi) rd) < 2 ^ 32"
    using assms(2) by (simp add: length_scale_rates)
  show ?thesis
    using sampler_row_closed [OF assms(1) s assms(3)] ctor_fields(1) [OF l assms(2)] assms(3)
    by (simp add: length_scale_rates)
qed

text \<open>
  Claim C1, as the code has it. For a rate matrix whose diagonal entry for base \<open>b\<close> is
  the negative sum of the off-diagonal entries of row \<open>b\<close>: the constructor of
  \<^verbatim>\<open>MutationSampler\<close> caches \<open>- Q[b,b]\<close>, with no indel rate added;
  \<^verbatim>\<open>fill_probs_q_tcag\<close> caches \<open>- Q[b,b]\<close> plus a quarter of the sum of the insertion and
  deletion rates it is given, which is \<open>- Q[b,b] + xi / 4\<close> when these are the relative rates
  scaled to the overall insertion and deletion rates.
\<close>

theorem cached_rate_both_paths:
  assumes "n_rows Q = 4" "n_cols Q = 4" "b < 4" "elem Q b b = - row_offdiag Q b"
    and "4 + length ri + length rd < 2 ^ 32" "4 + length ins + length del < 2 ^ 32"
  shows "rates (MutationSampler_ctor Q xi psi pis ri rd) (bases ! b) = Some (- elem Q b b) \<and>
         snd (fill_probs_q_tcag [] [] Q pis ins del) ! b
           = - elem Q b b + (sum_list ins + sum_list del) / 4 \<and>
         (0 < psi \<and> sum_list ri \<noteq> 0 \<and> sum_list rd \<noteq> 0 \<longrightarrow>
            snd (fill_probs_q_tcag [] [] Q pis
                   (scale_rates (xi_i xi psi) ri) (scale_rates (xi_d xi psi) rd)) ! b
              = - elem Q b b + xi / 4)"
proof -
  have s: "4 + length (scale_rates (xi_i xi psi) ri) + length (scale_rates (xi_d xi psi) rd) < 2 ^ 32"
    using assms(5) by (simp add: length_scale_rates)
  have "0 < psi \<Longrightarrow> sum_list ri \<noteq> 0 \<Longrightarrow> sum_list rd \<noteq> 0 \<Longrightarrow>
        sum_list (scale_rates (xi_i xi psi) ri) + sum_list (scale_rates (xi_d xi psi) rd) = xi"
    by (simp add: sum_scale_rates xi_split)
  then show ?thesis
    using ctor_rates_nth [OF assms(1,5,3)] q_tcag_nth [OF assms(2,6,3)] q_tcag_nth [OF assms(2) s assms(3)]
      assms(4)
    by simp
qed

lemma Q_ex_simps: "n_rows Q_ex = 4" "n_cols Q_ex = 4" "elem Q_ex i j = (if i = j then - 3 else 1)"
  by (simp_all add: Q_ex_def)

lemma row_offdiag_Q_ex: "b < 4 \<Longrightarrow> row_offdiag Q_ex b = 3"
  using less4 [of b] by (auto simp: row_offdiag_def upt4 Q_ex_simps)

text \<open>
  The rates at the matrix with off-diagonal entries 1 and diagonal \<open>- 3\<close>, \<open>xi = 1\<close>,
  \<open>psi = 1\<close> and one insertion and one deletion length.
\<close>

theorem cached_rate_both_paths_witness:
  "elem Q_ex 0 0 = - row_offdiag Q_ex 0 \<and>
   rates (MutationSampler_ctor Q_ex 1 1 pis_ex [1] [1]) (bases ! 0) = Some 3 \<and>
   snd (fill_probs_q_tcag [] [] Q_ex pis_ex [1 / 2] [1 / 2]) ! 0 = 13 / 4 \<and>
   snd (fill_probs_q_tcag [] [] Q_ex pis_ex
          (scale_rates (xi_i 1 1) [1]) (scale_rates (xi_d 1 1) [1])) ! 0 = 13 / 4"
  using cached_rate_both_paths [of Q_ex 0 "[1]" "[1]" "[1 / 2]" "[1 / 2]" 1 1 pis_ex]
  by (simp add: Q_ex_simps row_offdiag_Q_ex)

text \<open>
  Claim C1 as stated fails at that input: neither construction caches
  \<open>- Q[b,b] + xi = 4\<close> for the base T; the constructor caches 3 and
  \<^verbatim>\<open>fill_probs_q_tcag\<close> caches \<open>13 / 4\<close>.
\<close>

theorem cached_rate_not_plus_xi:
  "diag_neg_rowsum Q_ex \<and>
   rates (MutationSampler_ctor Q_ex 1 1 pis_ex [1] [1]) (bases ! 0) \<noteq> Some (- elem Q_ex 0 0 + 1) \<and>
   snd (fill_probs_q_tcag [] [] Q_ex pis_ex
          (scale_rates (xi_i 1 1) [1]) (scale_rates (xi_d 1 1) [1])) ! 0 \<noteq> - elem Q_ex 0 0 + 1"
proof -
  have d: "diag_neg_rowsum Q_ex"
    by (simp add: diag_neg_rowsum_def upt4 row_offdiag_Q_ex Q_ex_simps)
  have r: "rates (MutationSampler_ctor Q_ex 1 1 pis_ex [1] [1]) (bases ! 0) = Some 3"
    using ctor_rates_nth [of Q_ex "[1]" "[1]" 0 1 1 pis_ex] by (simp add: Q_ex_simps)
  have "sum_list (scale_rates (xi_i 1 1) [1]) + sum_list (scale_rates (xi_d 1 1) [1]) = 1"
    by (simp add: sum_scale_rates xi_split)
  then have q: "snd (fill_probs_q_tcag [] [] Q_ex pis_ex
          (scale_rates (xi_i 1 1) [1]) (scale_rates (xi_d 1 1) [1])) ! 0 = 13 / 4"
    using q_tcag_nth [of Q_ex "scale_rates (xi_i 1 1) [1]" "scale_rates (xi_d 1 1) [1]" 0 pis_ex]
    by (simp add: Q_ex_simps row_offdiag_Q_ex length_scale_rates)
  show ?thesis
    unfolding r q using d by (simp add: Q_ex_simps)
qed

lemma sum_list_div: "sum_list (map (\<lambda>x. x / d) xs) = sum_list xs / (d :: real)"
  by (induction xs) (simp_all add: add_divide_distrib)

lemma scale_rates_zero: "scale_rates 0 rel = replicate (length rel) 0"
  by (simp add: scale_rates_def map_replicate_const)

lemma Q_skew_simps: "n_rows Q_skew = 4" "n_cols Q_skew = 4"
  "elem Q_skew i j = [ [- 9, 2, 3, 4], [1, - 8, 3, 4], [1, 2, - 7, 4], [1, 2, 3, - 6] ] ! i ! j"
  by (simp_all add: Q_skew_def)

text \<open>
  Claim C3, as the code has it. The vector \<^verbatim>\<open>fill_probs_q_tcag\<close> builds for base \<open>b\<close> sums
  to 1 whenever the total it divides by (the off-diagonal sum of row \<open>b\<close> plus a quarter of
  the indel rates) is not zero, as it is when the off-diagonal sum is not negative and the
  indel rates have a positive sum. The vector the constructor of \<^verbatim>\<open>MutationSampler\<close> builds
  is divided by \<open>- Q[b,b]\<close>; when \<open>Q[b,b]\<close> is not zero it sums to the off-diagonal sum
  of column \<open>b\<close> plus \<open>xi\<close>, over \<open>- Q[b,b]\<close>. (At \<open>Q[b,b] = 0\<close> the source divides
  by a floating-point zero and the entries are not numbers; nothing is stated there.)
\<close>

theorem sums_to_one_fill_only:
  assumes "n_rows Q = 4" "n_cols Q = 4" "b < 4"
    and "4 + length ri + length rd < 2 ^ 32" "4 + length ins + length del < 2 ^ 32"
  shows "(row_offdiag Q b + (sum_list ins + sum_list del) / 4 \<noteq> 0 \<longrightarrow>
            sum_list (fst (fill_probs_q_tcag [] [] Q pis ins del) ! b) = 1) \<and>
         (0 \<le> row_offdiag Q b \<and> 0 < sum_list ins + sum_list del \<longrightarrow>
            sum_list (fst (fill_probs_q_tcag [] [] Q pis ins del) ! b) = 1) \<and>
         (elem Q b b \<noteq> 0 \<and> 0 < psi \<and> sum_list ri \<noteq> 0 \<and> sum_list rd \<noteq> 0 \<longrightarrow>
            sum_list (sampler (MutationSampler_ctor Q xi psi pis ri rd) ! b)
              = (col_offdiag Q b + xi) / (- elem Q b b))"
proof -
  have a: "sum_list (fst (fill_probs_q_tcag [] [] Q pis ins del) ! b) = 1"
    if "row_offdiag Q b + (sum_list ins + sum_list del) / 4 \<noteq> 0"
    using that by (simp add: probs_nth [OF assms(2,5,3)] sum_list_div sum_fill_weights [OF assms(3)])
  have a': "sum_list (fst (fill_probs_q_tcag [] [] Q pis ins del) ! b) = 1"
    if "0 \<le> row_offdiag Q b" "0 < sum_list ins + sum_list del"
  proof -
    have "0 < (sum_list ins + sum_list del) / 4" using that(2) by simp
    then have "0 < row_offdiag Q b + (sum_list ins + sum_list del) / 4"
      using that(1) by (rule add_nonneg_pos [rotated])
    then show ?thesis using a by simp
  qed
  have b: "sum_list (sampler (MutationSampler_ctor Q xi psi pis ri rd) ! b)
              = (col_offdiag Q b + xi) / (- elem Q b b)"
    if "elem Q b b \<noteq> 0" "0 < psi" "sum_list ri \<noteq> 0" "sum_list rd \<noteq> 0"
  proof -
    have "sum_list (scale_rates (xi_i xi psi) ri) + sum_list (scale_rates (xi_d xi psi) rd) = xi"
      using that(2,3,4) by (simp add: sum_scale_rates xi_split)
    then have "sum_list (ctor_weights Q (scale_rates (xi_i xi psi) ri) (scale_rates (xi_d xi psi) rd) b)
              = col_offdiag Q b + xi"
      by (simp add: sum_ctor_weights [OF assms(3)])
    then show ?thesis
      by (simp only: ctor_sampler_nth [OF assms(1,4,3)] sum_list_div)
  qed
  show ?thesis using a a' b by blast
qed

lemma col_offdiag_Q_ex: "b < 4 \<Longrightarrow> col_offdiag Q_ex b = 3"
  using less4 [of b] by (auto simp: col_offdiag_def upt4 Q_ex_simps)

text \<open>
  Both sums at the matrix with off-diagonal entries 1 and diagonal \<open>- 3\<close>.
\<close>

theorem sums_to_one_fill_only_witness:
  "row_offdiag Q_ex 0 + (sum_list [1 / 2] + sum_list [1 / 2]) / 4 \<noteq> 0 \<and>
   elem Q_ex 0 0 \<noteq> 0 \<and>
   sum_list (fst (fill_probs_q_tcag [] [] Q_ex pis_ex [1 / 2] [1 / 2]) ! 0) = 1 \<and>
   sum_list (sampler (MutationSampler_ctor Q_ex 1 1 pis_ex [1] [1]) ! 0) = 4 / 3"
  using sums_to_one_fill_only [of Q_ex 0 "[1]" "[1]" "[1 / 2]" "[1 / 2]" pis_ex 1 1]
  by (simp add: Q_ex_simps row_offdiag_Q_ex col_offdiag_Q_ex)

text \<open>
  Claim C3 as stated fails in the constructor: with off-diagonal entries 1, diagonal
  \<open>- 3\<close>, \<open>xi = 1\<close>, \<open>psi = 1\<close> and relative rates \<open>[1]\<close>, \<open>[1]\<close>, the vector for the
  base T sums to \<open>4 / 3\<close>.
\<close>

theorem ctor_probs_sum_not_one:
  "sum_list (sampler (MutationSampler_ctor Q_ex 1 1 pis_ex [1] [1]) ! 0) \<noteq> 1"
proof -
  have "sum_list (scale_rates (xi_i 1 1) [1]) + sum_list (scale_rates (xi_d 1 1) [1]) = 1"
    by (simp add: sum_scale_rates xi_split)
  then have "sum_list (ctor_weights Q_ex (scale_rates (xi_i 1 1) [1]) (scale_rates (xi_d 1 1) [1]) 0) = 4"
    by (simp add: sum_ctor_weights col_offdiag_Q_ex)
  then have "sum_list (sampler (MutationSampler_ctor Q_ex 1 1 pis_ex [1] [1]) ! 0) = 4 / 3"
    using ctor_sampler_nth [of Q_ex "[1]" "[1]" 0 1 1 pis_ex]
    by (simp add: Q_ex_simps sum_list_div)
  then show ?thesis by simp
qed

text \<open>
  Claim C2, as the code has it. On a valid input whose diagonal entry for base \<open>b\<close> is the
  negative off-diagonal sum of row \<open>b\<close>, with \<^verbatim>\<open>fill_probs_q_tcag\<close> given the relative
  rates scaled to the overall insertion and deletion rates: the two constructions give the
  same vector and the same rate for base \<open>b\<close> when \<open>xi = 0\<close> and row \<open>b\<close> and column \<open>b\<close>
  of \<open>Q\<close> coincide; whenever \<open>xi\<close> is not zero, their rates for base \<open>b\<close> differ.
\<close>

theorem paths_agree_without_indels:
  assumes "n_rows Q = 4" "n_cols Q = 4" "b < 4" "4 + length ri + length rd < 2 ^ 32"
    and "0 < psi" "sum_list ri \<noteq> 0" "sum_list rd \<noteq> 0"
    and "elem Q b b = - row_offdiag Q b"
  shows "(xi = 0 \<and> (\<forall>j < 4. elem Q j b = elem Q b j) \<and> row_offdiag Q b \<noteq> 0 \<longrightarrow>
            sampler (MutationSampler_ctor Q xi psi pis ri rd) ! b
              = fst (fill_probs_q_tcag [] [] Q pis
                       (scale_rates (xi_i xi psi) ri) (scale_rates (xi_d xi psi) rd)) ! b \<and>
            rates (MutationSampler_ctor Q xi psi pis ri rd) (bases ! b)
              = Some (snd (fill_probs_q_tcag [] [] Q pis
                       (scale_rates (xi_i xi psi) ri) (scale_rates (xi_d xi psi) rd)) ! b)) \<and>
         (xi \<noteq> 0 \<longrightarrow>
            rates (MutationSampler_ctor Q xi psi pis ri rd) (bases ! b)
              \<noteq> Some (snd (fill_probs_q_tcag [] [] Q pis
                       (scale_rates (xi_i xi psi) ri) (scale_rates (xi_d xi psi) rd)) ! b))"
proof -
  let ?ins = "scale_rates (xi_i xi psi) ri" and ?del = "scale_rates (xi_d xi psi) rd"
  have s: "4 + length ?ins + length ?del < 2 ^ 32"
    using assms(4) by (simp add: length_scale_rates)
  have x: "sum_list ?ins + sum_list ?del = xi"
    using assms(5-7) by (simp add: sum_scale_rates xi_split)
  have q: "snd (fill_probs_q_tcag [] [] Q pis ?ins ?del) ! b = - elem Q b b + xi / 4"
    using q_tcag_nth [OF assms(2) s assms(3), of pis] x assms(8) by simp
  have r: "rates (MutationSampler_ctor Q xi psi pis ri rd) (bases ! b) = Some (- elem Q b b)"
    by (rule ctor_rates_nth [OF assms(1,4,3)])
  have B: "xi \<noteq> 0 \<Longrightarrow> rates (MutationSampler_ctor Q xi psi pis ri rd) (bases ! b)
              \<noteq> Some (snd (fill_probs_q_tcag [] [] Q pis ?ins ?del) ! b)"
    unfolding q r by simp
  have A: "sampler (MutationSampler_ctor Q xi psi pis ri rd) ! b
              = fst (fill_probs_q_tcag [] [] Q pis ?ins ?del) ! b \<and>
           rates (MutationSampler_ctor Q xi psi pis ri rd) (bases ! b)
              = Some (snd (fill_probs_q_tcag [] [] Q pis ?ins ?del) ! b)"
    if z: "xi = 0" and sym: "\<forall>j < 4. elem Q j b = elem Q b j" and nz: "row_offdiag Q b \<noteq> 0"
  proof -
    have i0: "?ins = replicate (length ri) 0" and d0: "?del = replicate (length rd) 0"
      using z by (simp_all add: xi_i_def xi_d_def scale_rates_zero)
    have c: "map (\<lambda>r. elem Q r b) [0..<4] = map (elem Q b) [0..<4]"
      using sym by simp
    have w: "ctor_weights Q ?ins ?del b = fill_weights Q ?ins ?del b"
      unfolding ctor_weights_def fill_weights_def c i0 d0 by simp
    have sw: "sum_list (fill_weights Q ?ins ?del b) = - elem Q b b"
      using sum_fill_weights [OF assms(3), of Q ?ins ?del] x z assms(8) by simp
    show ?thesis
      unfolding ctor_sampler_nth [OF assms(1,4,3)] probs_nth [OF assms(2) s assms(3)] q r w sw
      using z by simp
  qed
  show ?thesis using A B by blast
qed

text \<open>
  Agreement at \<open>xi = 0\<close> and disagreement at \<open>xi = 1\<close>, on a symmetric matrix.
\<close>

theorem paths_agree_without_indels_witness:
  "sampler (MutationSampler_ctor Q_ex 0 1 pis_ex [1] [1]) ! 0
     = fst (fill_probs_q_tcag [] [] Q_ex pis_ex
              (scale_rates (xi_i 0 1) [1]) (scale_rates (xi_d 0 1) [1])) ! 0 \<and>
   rates (MutationSampler_ctor Q_ex 0 1 pis_ex [1] [1]) (bases ! 0)
     = Some (snd (fill_probs_q_tcag [] [] Q_ex pis_ex
              (scale_rates (xi_i 0 1) [1]) (scale_rates (xi_d 0 1) [1])) ! 0) \<and>
   rates (MutationSampler_ctor Q_ex 1 1 pis_ex [1] [1]) (bases ! 0)
     \<noteq> Some (snd (fill_probs_q_tcag [] [] Q_ex pis_ex
              (scale_rates (xi_i 1 1) [1]) (scale_rates (xi_d 1 1) [1])) ! 0)"
  using paths_agree_without_indels [of Q_ex 0 "[1]" "[1]" 1 0 pis_ex]
    paths_agree_without_indels [of Q_ex 0 "[1]" "[1]" 1 1 pis_ex]
  by (simp add: Q_ex_simps row_offdiag_Q_ex)

lemma scaled_ex: "scale_rates (xi_i 1 1) [1] = [1 / 2]" "scale_rates (xi_d 1 1) [1] = [1 / 2]"
  by (simp_all add: scale_rates_def xi_i_def xi_d_def)

text \<open>
  Claim C2 as stated fails: on a valid input (rows are the source base, every diagonal
  entry the negative off-diagonal row sum, \<open>xi = 1\<close>, \<open>psi = 1\<close>) the two constructions
  give different vectors and different rates for the base T.
\<close>

theorem paths_differ:
  "sampler (MutationSampler_ctor Q_skew 1 1 pis_ex [1] [1]) ! 0
     \<noteq> fst (fill_probs_q_tcag [] [] Q_skew pis_ex
              (scale_rates (xi_i 1 1) [1]) (scale_rates (xi_d 1 1) [1])) ! 0 \<and>
   rates (MutationSampler_ctor Q_skew 1 1 pis_ex [1] [1]) (bases ! 0)
     \<noteq> Some (snd (fill_probs_q_tcag [] [] Q_skew pis_ex
              (scale_rates (xi_i 1 1) [1]) (scale_rates (xi_d 1 1) [1])) ! 0)"
proof -
  have c: "sampler (MutationSampler_ctor Q_skew 1 1 pis_ex [1] [1]) ! 0
             = [0, 1 / 9, 1 / 9, 1 / 9, 1 / 18, 1 / 18]"
    using ctor_sampler_nth [of Q_skew "[1]" "[1]" 0 1 1 pis_ex]
    by (simp add: Q_skew_simps scaled_ex ctor_weights_def upt4)
  have f: "fst (fill_probs_q_tcag [] [] Q_skew pis_ex [1 / 2] [1 / 2]) ! 0
             = [0, 8 / 37, 12 / 37, 16 / 37, 1 / 74, 1 / 74]"
    using probs_nth [of Q_skew "[1 / 2]" "[1 / 2]" 0 pis_ex]
    by (simp add: Q_skew_simps fill_weights_def upt4)
  have r: "rates (MutationSampler_ctor Q_skew 1 1 pis_ex [1] [1]) (bases ! 0) = Some 9"
    using ctor_rates_nth [of Q_skew "[1]" "[1]" 0 1 1 pis_ex] by (simp add: Q_skew_simps)
  have q: "snd (fill_probs_q_tcag [] [] Q_skew pis_ex [1 / 2] [1 / 2]) ! 0 = 37 / 4"
    using q_tcag_nth [of Q_skew "[1 / 2]" "[1 / 2]" 0 pis_ex]
    by (simp add: Q_skew_simps row_offdiag_def upt4)
  show ?thesis
    unfolding scaled_ex c f r q by simp
qed

section \<open>Weighted reservoir sampling: range and termination\<close>

lemma wr_skip_range:
  "i0 \<le> endp \<Longrightarrow> wr_skip rate X endp i0 w0 w1 rd = (i, a, b, rd') \<Longrightarrow>
   i0 \<le> i \<and> i \<le> endp \<and> set rd' \<subseteq> set rd \<union> {i0..endp}"
proof (induction rate X endp i0 w0 w1 rd rule: wr_skip.induct)
  case (1 rate X endp i0 w0 w1 rd)
  show ?case
  proof (cases "X > w1 \<and> i0 < endp")
    case True
    then have "wr_skip rate X endp (i0 + 1) (w0 + rate i0) (w1 + rate (i0 + 1)) (rd @ [i0, i0 + 1])
                 = (i, a, b, rd')"
      using "1.prems"(2) by (simp add: wr_skip.simps [of rate X endp i0])
    with "1.IH" [OF True] True
    have "i0 + 1 \<le> i \<and> i \<le> endp \<and> set rd' \<subseteq> set (rd @ [i0, i0 + 1]) \<union> {i0 + 1..endp}"
      by simp
    with True show ?thesis by auto
  next
    case False
    with "1.prems" show ?thesis
      by (auto simp add: wr_skip.simps [of rate X endp i0])
  qed
qed

lemma wr_iter_cases:
  assumes "cursor s < endp"
  obtains
    (break) e1 rd where "wr_iter G endp rate s = Return (s\<lparr>engine := e1, reads := rd\<rparr>)"
      "set rd \<subseteq> set (reads s) \<union> {cursor s..endp}"
  | (redraw) e1 rd where
      "wr_iter G endp rate s = Next (s\<lparr>engine := e1, reads := rd, redraws := redraws s + 1\<rparr>)"
      "set rd \<subseteq> set (reads s) \<union> {cursor s..endp}"
  | (adopt) i k e2 rd where
      "wr_iter G endp rate s =
         Next (s\<lparr>cursor := i, largest_key := k, largest_pos := i, engine := e2,
                 reads := rd, adopted := adopted s @ [i]\<rparr>)"
      "cursor s < i" "i \<le> endp" "set rd \<subseteq> set (reads s) \<union> {cursor s..endp}"
proof -
  obtain r e1 where r: "runif_01 G (engine s) = (r, e1)" by (cases "runif_01 G (engine s)")
  let ?X = "ln r / ln (largest_key s)"
  obtain i a b rd where k: "wr_skip rate ?X endp (cursor s + 1) (rate (cursor s))
      (rate (cursor s) + rate (cursor s + 1)) (reads s @ [cursor s, cursor s + 1]) = (i, a, b, rd)"
    by (metis prod_cases4)
  have "cursor s + 1 \<le> endp" using assms by simp
  from wr_skip_range [OF this k]
  have i: "cursor s < i" "i \<le> endp" and rd: "set rd \<subseteq> set (reads s) \<union> {cursor s..endp}"
    using assms by auto
  obtain r2 e2 where r2: "runif_ab G e1 (largest_key s powr rate i) 1 = (r2, e2)"
    by (cases "runif_ab G e1 (largest_key s powr rate i) 1")
  consider "?X > b" | "\<not> ?X > b" "a \<ge> ?X" | "\<not> ?X > b" "\<not> a \<ge> ?X" by blast
  then show thesis
  proof cases
    case 1
    then have "wr_iter G endp rate s = Return (s\<lparr>engine := e1, reads := rd\<rparr>)"
      using k by (simp add: wr_iter_def r Let_def)
    then show ?thesis using rd by (rule break)
  next
    case 2
    then have "wr_iter G endp rate s = Next (s\<lparr>engine := e1, reads := rd, redraws := redraws s + 1\<rparr>)"
      using k by (simp add: wr_iter_def r Let_def)
    then show ?thesis using rd by (rule redraw)
  next
    case 3
    then have "wr_iter G endp rate s =
         Next (s\<lparr>cursor := i, largest_key := r2 powr (1 / rate i), largest_pos := i, engine := e2,
                 reads := rd @ [i], adopted := adopted s @ [i]\<rparr>)"
      using k by (simp add: wr_iter_def r r2 Let_def)
    moreover note i(1) i(2)
    moreover have "set (rd @ [i]) \<subseteq> set (reads s) \<union> {cursor s..endp}"
      using rd i by auto
    ultimately show ?thesis
      by (rule adopt [where i = i and rd = "rd @ [i]"])
  qed
qed

lemma wr_iter_inv:
  assumes "wr_inv start endp s" "cursor s < endp"
  shows "wr_inv start endp (state_of (wr_iter G endp rate s)) \<and>
         cursor s \<le> cursor (state_of (wr_iter G endp rate s))"
  using assms(2)
proof (cases rule: wr_iter_cases [of s endp G rate])
  case (break e1 rd)
  then show ?thesis using assms by (auto simp: wr_inv_def)
next
  case (redraw e1 rd)
  then show ?thesis using assms by (auto simp: wr_inv_def)
next
  case (adopt i k e2 rd)
  then show ?thesis using assms by (auto simp: wr_inv_def sorted_wrt_append)
qed

lemma wr_run_Return [simp]: "wr_run n G endp rate (Return s) = Return s"
  by (cases n) simp_all

lemma wr_run_add: "wr_run (n + m) G endp rate ctl = wr_run m G endp rate (wr_run n G endp rate ctl)"
proof (induction n arbitrary: ctl)
  case 0
  then show ?case by simp
next
  case (Suc n)
  then show ?case by (cases ctl) simp_all
qed

lemma wr_run_inv:
  "wr_inv start endp (state_of ctl) \<Longrightarrow> wr_inv start endp (state_of (wr_run n G endp rate ctl))"
proof (induction n arbitrary: ctl)
  case 0
  then show ?case by simp
next
  case (Suc n)
  show ?case
  proof (cases ctl)
    case (Next s)
    then have "wr_inv start endp (state_of (if cursor s < endp then wr_iter G endp rate s else Return s))"
      using Suc.prems wr_iter_inv [of start endp s G rate] by simp
    from Suc.IH [OF this] show ?thesis using Next by simp
  next
    case (Return s)
    then show ?thesis using Suc.prems by simp
  qed
qed

lemma wr_init_inv: "start \<le> endp \<Longrightarrow> wr_inv start endp (wr_init G start rate e)"
  by (simp add: wr_init_def wr_inv_def split: prod.splits)

lemma wr_after_inv: "start \<le> endp \<Longrightarrow> wr_inv start endp (wr_after n G start endp rate e)"
  unfolding wr_after_def by (rule wr_run_inv) (simp add: wr_init_inv)

lemma wr_step_cursor:
  "wr_inv start endp (state_of ctl) \<Longrightarrow>
   cursor (state_of ctl) \<le> cursor (state_of (wr_run (Suc 0) G endp rate ctl))"
  using wr_iter_inv [of start endp "state_of ctl" G rate] by (cases ctl) simp_all

lemma wr_after_cursor_mono:
  assumes "start \<le> endp"
  shows "cursor (wr_after n G start endp rate e) \<le> cursor (wr_after (Suc n) G start endp rate e)"
proof -
  have "wr_run (Suc n) G endp rate (Next (wr_init G start rate e))
          = wr_run (Suc 0) G endp rate (wr_run n G endp rate (Next (wr_init G start rate e)))"
    using wr_run_add [of n "Suc 0" G endp rate "Next (wr_init G start rate e)"]
    by (simp del: wr_run.simps)
  then show ?thesis
    using wr_step_cursor [of start endp "wr_run n G endp rate (Next (wr_init G start rate e))" G rate]
      wr_after_inv [OF assms, of n G rate e]
    by (simp del: wr_run.simps add: wr_after_def)
qed

lemma wr_run_count:
  "wr_run n G endp rate (Next s0) = Next s \<Longrightarrow>
   length (adopted s) + redraws s = n + length (adopted s0) + redraws s0"
proof (induction n arbitrary: s0)
  case 0
  then show ?case by simp
next
  case (Suc n)
  show ?case
  proof (cases "cursor s0 < endp")
    case False
    with Suc.prems show ?thesis by simp
  next
    case True
    then have run: "wr_run n G endp rate (wr_iter G endp rate s0) = Next s"
      using Suc.prems by simp
    from True show ?thesis
    proof (cases rule: wr_iter_cases [of s0 endp G rate])
      case (break e1 rd)
      with run show ?thesis by simp
    next
      case (redraw e1 rd)
      with run Suc.IH [of "s0\<lparr>engine := e1, reads := rd, redraws := redraws s0 + 1\<rparr>"]
      show ?thesis by simp
    next
      case (adopt i k e2 rd)
      with run Suc.IH [of "s0\<lparr>cursor := i, largest_key := k, largest_pos := i, engine := e2,
                 reads := rd, adopted := adopted s0 @ [i]\<rparr>"]
      show ?thesis by simp
    qed
  qed
qed

lemma wr_running_count:
  assumes "start \<le> endp" "weighted_reservoir n G start endp rate e = None"
  shows "n \<le> redraws (wr_after n G start endp rate e) + (endp - start)"
proof -
  obtain s where s: "wr_run n G endp rate (Next (wr_init G start rate e)) = Next s"
    using assms(2) by (auto simp: weighted_reservoir_def split: wr_ctl.splits)
  have "length (adopted s) + redraws s = n"
    using wr_run_count [OF s] by (simp add: wr_init_def split: prod.splits)
  moreover have "wr_inv start endp s"
    using wr_after_inv [OF assms(1), of n G rate e] s by (simp add: wr_after_def)
  then have "length (adopted s) \<le> endp - start"
    unfolding wr_inv_def by arith
  ultimately show ?thesis using s by (simp add: wr_after_def)
qed

lemma wr_returns_within:
  assumes "start \<le> endp" "\<forall>m. redraws (wr_after m G start endp rate e) \<le> R"
  shows "\<exists>p. weighted_reservoir (Suc (R + (endp - start))) G start endp rate e = Some p"
proof (rule ccontr)
  assume "\<nexists>p. weighted_reservoir (Suc (R + (endp - start))) G start endp rate e = Some p"
  then have "weighted_reservoir (Suc (R + (endp - start))) G start endp rate e = None"
    by simp
  from wr_running_count [OF assms(1) this] assms(2) show False
    by (metis add_le_cancel_right not_less_eq_eq)
qed


lemma ln_quarter: "ln (1 / 4 :: real) / ln (1 / 2) = 2"
proof -
  have "ln (1 / 4 :: real) = ln ((1 / 2) ^ 2)" by (simp add: power2_eq_square)
  also have "\<dots> = 2 * ln (1 / 2 :: real)" by (subst ln_realpow) simp_all
  finally show ?thesis by simp
qed

lemma G_count_init:
  "wr_init G_count 0 (\<lambda>i. 1) 0 =
     \<lparr>cursor = 0, largest_key = 1 / 2, largest_pos = 0, engine = 1, reads = [0], adopted = [],
      redraws = 0\<rparr>"
  by (simp add: wr_init_def G_count_def)

lemma G_count_iter:
  "wr_iter G_count 1 (\<lambda>i. 1)
     \<lparr>cursor = 0, largest_key = 1 / 2, largest_pos = 0, engine = 1, reads = [0], adopted = [],
      redraws = 0\<rparr> =
   Next \<lparr>cursor = 1, largest_key = 3 / 4, largest_pos = 1, engine = 3, reads = [0, 0, 1, 1],
         adopted = [1], redraws = 0\<rparr>"
  using ln_quarter by (simp add: wr_iter_def G_count_def wr_skip.simps)

lemma G_count_run:
  "wr_run (Suc (Suc k)) G_count 1 (\<lambda>i. 1) (Next (wr_init G_count 0 (\<lambda>i. 1) 0)) =
   Return \<lparr>cursor = 1, largest_key = 3 / 4, largest_pos = 1, engine = 3, reads = [0, 0, 1, 1],
         adopted = [1], redraws = 0\<rparr>"
  by (simp add: G_count_init G_count_iter del: One_nat_def)

lemma G_count_redraws: "redraws (wr_after m G_count 0 1 (\<lambda>i. 1) 0) = 0"
proof (cases m)
  case 0
  then show ?thesis by (simp add: wr_after_def G_count_init)
next
  case (Suc k)
  then show ?thesis
    using G_count_run [of "k - 1"]
    by (cases k) (simp_all add: wr_after_def G_count_init G_count_iter del: One_nat_def)
qed


text \<open>
  Claim C5, as the code has it. The cursor never moves backward and never passes \<open>endp\<close>;
  the adopted positions are strictly increasing, so each is adopted at most once, and
  there are at most \<open>endp - start\<close> of them; a call that has not returned after \<open>n\<close>
  evaluations of the loop condition has left all but at most \<open>endp - start\<close> of its
  iterations through \<^verbatim>\<open>continue\<close>; and if the engine never makes more than \<open>R\<close> such
  redraws, the call returns within \<open>R + (endp - start) + 1\<close> evaluations.
\<close>

theorem reservoir_single_pass:
  assumes "start \<le> endp"
  shows "cursor (wr_after n G start endp rate e) \<le> cursor (wr_after (Suc n) G start endp rate e) \<and>
         cursor (wr_after n G start endp rate e) \<le> endp \<and>
         sorted_wrt (<) (adopted (wr_after n G start endp rate e)) \<and>
         length (adopted (wr_after n G start endp rate e)) \<le> endp - start \<and>
         (weighted_reservoir n G start endp rate e = None \<longrightarrow>
            n \<le> redraws (wr_after n G start endp rate e) + (endp - start)) \<and>
         ((\<forall>m. redraws (wr_after m G start endp rate e) \<le> R) \<longrightarrow>
            (\<exists>p. weighted_reservoir (Suc (R + (endp - start))) G start endp rate e = Some p))"
proof -
  have inv: "wr_inv start endp (wr_after n G start endp rate e)"
    by (rule wr_after_inv [OF assms])
  then have a: "cursor (wr_after n G start endp rate e) \<le> endp"
    and b: "sorted_wrt (<) (adopted (wr_after n G start endp rate e))"
    and c: "length (adopted (wr_after n G start endp rate e)) \<le> endp - start"
    unfolding wr_inv_def by auto
  have d: "\<exists>p. weighted_reservoir (Suc (R + (endp - start))) G start endp rate e = Some p"
    if "\<forall>m. redraws (wr_after m G start endp rate e) \<le> R"
    by (rule wr_returns_within [OF assms that])
  show ?thesis
    using wr_after_cursor_mono [OF assms, of n G rate e] a b c wr_running_count [OF assms, of n G rate e] d
    by blast
qed

text \<open>
  The same call as above makes no redraw and returns.
\<close>

theorem reservoir_single_pass_witness:
  "(0 :: nat) \<le> 1 \<and> (\<forall>m. redraws (wr_after m G_count 0 1 (\<lambda>i. 1) 0) \<le> 0) \<and>
   (\<exists>p. weighted_reservoir (Suc (0 + (1 - 0))) G_count 0 1 (\<lambda>i. 1) 0 = Some p) \<and>
   adopted (wr_after 2 G_count 0 1 (\<lambda>i. 1) 0) = [1]"
  using reservoir_single_pass [of 0 1 2 G_count "\<lambda>i. 1" 0 0] G_count_redraws G_count_run [of 0]
  by (simp add: wr_after_def numeral_2_eq_2)



lemma G_half_iter:
  assumes "cursor s = 0" "largest_key s = 1 / 2"
  shows "\<exists>s'. wr_iter G_half 1 (\<lambda>i. 1) s = Next s' \<and> cursor s' = 0 \<and> largest_key s' = 1 / 2"
  by (simp add: wr_iter_def G_half_def wr_skip.simps assms)

lemma G_half_run:
  "cursor s = 0 \<Longrightarrow> largest_key s = 1 / 2 \<Longrightarrow> \<exists>s'. wr_run n G_half 1 (\<lambda>i. 1) (Next s) = Next s'"
proof (induction n arbitrary: s)
  case 0
  then show ?case by simp
next
  case (Suc n)
  from G_half_iter [OF Suc.prems] obtain s1 where
    i: "wr_iter G_half 1 (\<lambda>i. 1) s = Next s1" "cursor s1 = 0" "largest_key s1 = 1 / 2" by blast
  from Suc.IH [OF i(2,3)] show ?case using i(1) Suc.prems by simp
qed

text \<open>
  Claim C5 as stated fails: with an engine whose every draw is a half, on the range 0 to 1
  with unit rates, the first draw gives the key \<open>1 / 2\<close>, every later draw gives
  \<open>X = 1\<close>, which \<^verbatim>\<open>wt_sum0 = 1\<close> reaches, and the loop is left through \<^verbatim>\<open>continue\<close> with
  the cursor unmoved, for ever.
\<close>

theorem reservoir_never_returns:
  "\<forall>n. weighted_reservoir n G_half 0 1 (\<lambda>i. 1) () = None"
proof
  fix n
  have "\<exists>s'. wr_run n G_half 1 (\<lambda>i. 1) (Next (wr_init G_half 0 (\<lambda>i. 1) ())) = Next s'"
    by (rule G_half_run) (simp_all add: wr_init_def G_half_def)
  then show "weighted_reservoir n G_half 0 1 (\<lambda>i. 1) () = None"
    by (auto simp: weighted_reservoir_def)
qed


section \<open>Random sequences: lengths and gamma draws\<close>

lemma fill_seq_length: "length (fst (fill_seq P len seq e)) = len"
proof -
  have "length (fst (fold (\<lambda>j (sq, e). case table_sample P e of (k, e1) \<Rightarrow> (sq[j := bases ! k], e1))
          js (sq0, e0))) = length sq0" for js sq0 e0
    by (induction js arbitrary: sq0 e0) (auto split: prod.splits)
  then show ?thesis by (simp add: fill_seq_def resize_def)
qed

text \<open>The loop over the first \<open>m\<close> sequences of \<open>n\<close>.\<close>

lemma create_loop:
  assumes "m \<le> n"
  shows "\<exists>out e' ds.
           fold (\<lambda>i (seqs_out, e, draws).
             case seq_len P ub len_mean len_sd e of
               (len, e1, ds) \<Rightarrow>
                 (case fill_seq P len (seqs_out ! i) e1 of
                    (sq, e2) \<Rightarrow> (seqs_out[i := sq], e2, draws @ ds)))
             [0..<m] (replicate n [], e, []) = (out, e', ds) \<and>
           length out = n \<and>
           (len_sd > 0 \<longrightarrow> length ds = m \<and>
              (\<forall>i < m. length (out ! i) =
                 (if to_uint32 ub (ds ! i) < 1 then 1 else to_uint32 ub (ds ! i)))) \<and>
           (\<not> len_sd > 0 \<longrightarrow> ds = [] \<and>
              (\<forall>i < m. length (out ! i) = to_uint32 ub (Finite len_mean)))"
  using assms
proof (induction m)
  case 0
  then show ?case by simp
next
  case (Suc m)
  then obtain out e' ds where
    f: "fold (\<lambda>i (seqs_out, e, draws).
             case seq_len P ub len_mean len_sd e of
               (len, e1, ds) \<Rightarrow>
                 (case fill_seq P len (seqs_out ! i) e1 of
                    (sq, e2) \<Rightarrow> (seqs_out[i := sq], e2, draws @ ds)))
             [0..<m] (replicate n [], e, []) = (out, e', ds)"
    and l: "length out = n"
    and p: "len_sd > 0 \<longrightarrow> length ds = m \<and>
              (\<forall>i < m. length (out ! i) =
                 (if to_uint32 ub (ds ! i) < 1 then 1 else to_uint32 ub (ds ! i)))"
    and q: "\<not> len_sd > 0 \<longrightarrow> ds = [] \<and>
              (\<forall>i < m. length (out ! i) = to_uint32 ub (Finite len_mean))"
    by auto
  obtain len e1 d1 where s: "seq_len P ub len_mean len_sd e' = (len, e1, d1)"
    by (metis prod_cases3)
  obtain sq e2 where g: "fill_seq P len (out ! m) e1 = (sq, e2)"
    by (cases "fill_seq P len (out ! m) e1")
  have lsq: "length sq = len" using fill_seq_length [of P len "out ! m" e1] g by simp
  have m: "m < n" using Suc.prems by simp
  have sp: "len_sd > 0 \<Longrightarrow> \<exists>d. d1 = [d] \<and> len = (if to_uint32 ub d < 1 then 1 else to_uint32 ub d)"
    using s by (auto simp: seq_len_def Let_def split: prod.splits)
  have sn: "\<not> len_sd > 0 \<Longrightarrow> d1 = [] \<and> len = to_uint32 ub (Finite len_mean)"
    using s by (auto simp: seq_len_def Let_def)
  show ?case
  proof (intro exI conjI)
    show "fold (\<lambda>i (seqs_out, e, draws).
             case seq_len P ub len_mean len_sd e of
               (len, e1, ds) \<Rightarrow>
                 (case fill_seq P len (seqs_out ! i) e1 of
                    (sq, e2) \<Rightarrow> (seqs_out[i := sq], e2, draws @ ds)))
             [0..<Suc m] (replicate n [], e, []) = (out[m := sq], e2, ds @ d1)"
      by (simp add: f s g)
    show "length (out[m := sq]) = n" using l by simp
    show "len_sd > 0 \<longrightarrow> length (ds @ d1) = Suc m \<and>
              (\<forall>i < Suc m. length (out[m := sq] ! i) =
                 (if to_uint32 ub ((ds @ d1) ! i) < 1 then 1 else to_uint32 ub ((ds @ d1) ! i)))"
    proof
      assume pos: "len_sd > 0"
      from sp [OF pos] obtain d where d: "d1 = [d]"
        "len = (if to_uint32 ub d < 1 then 1 else to_uint32 ub d)" by blast
      from p pos have pl: "length ds = m" and pa: "\<forall>i < m. length (out ! i) =
                 (if to_uint32 ub (ds ! i) < 1 then 1 else to_uint32 ub (ds ! i))" by auto
      show "length (ds @ d1) = Suc m \<and>
              (\<forall>i < Suc m. length (out[m := sq] ! i) =
                 (if to_uint32 ub ((ds @ d1) ! i) < 1 then 1 else to_uint32 ub ((ds @ d1) ! i)))"
        using pl pa d lsq l m by (auto simp: nth_append less_Suc_eq nth_list_update)
    qed
    show "\<not> len_sd > 0 \<longrightarrow> ds @ d1 = [] \<and>
              (\<forall>i < Suc m. length (out[m := sq] ! i) = to_uint32 ub (Finite len_mean))"
      using q sn lsq l m by (auto simp: less_Suc_eq nth_list_update)
  qed
qed

lemma create_sequences_lengths:
  "\<exists>out e' ds. create_sequences P ub n_seqs len_mean len_sd e = (out, e', ds) \<and>
     length out = n_seqs \<and>
     (len_sd > 0 \<longrightarrow> length ds = n_seqs \<and>
        (\<forall>i < n_seqs. length (out ! i) =
           (if to_uint32 ub (ds ! i) < 1 then 1 else to_uint32 ub (ds ! i)))) \<and>
     (\<not> len_sd > 0 \<longrightarrow> ds = [] \<and>
        (\<forall>i < n_seqs. length (out ! i) = to_uint32 ub (Finite len_mean)))"
  unfolding create_sequences_def
  by (rule create_loop) simp

text \<open>
  Claim C6, as the code has it. When \<open>len_sd > 0\<close> the generator makes exactly one gamma
  draw for each sequence, whatever the draw is, and the length of the sequence is that
  draw converted to \<^verbatim>\<open>uint32\<close> and raised to 1 when it is below: no draw is tested for
  finiteness, none is repeated, and the call has no way to fail.
\<close>

theorem one_gamma_draw_per_sequence:
  assumes "len_sd > 0"
  shows "case create_sequences P ub n_seqs len_mean len_sd e of
           (out, e', ds) \<Rightarrow>
             length out = n_seqs \<and> length ds = n_seqs \<and>
             (\<forall>i < n_seqs. length (out ! i) =
                (if to_uint32 ub (ds ! i) < 1 then 1 else to_uint32 ub (ds ! i)))"
  using create_sequences_lengths [of P ub n_seqs len_mean len_sd e] assms by auto

lemma upt2: "[0..<2] = [0, 1 :: nat]"
  by (simp add: upt_rec)

lemma upt3: "[0..<3] = [0, 1, 2 :: nat]"
  by (simp add: upt_rec)

lemma create_P_seven:
  "create_sequences P_seven (\<lambda>d. 0) 2 10 1 0 = ([''TTT'', ''TTT''], 2, [Finite (7 / 2), Finite (7 / 2)])"
  by (simp add: create_sequences_def seq_len_def to_uint32_def fill_seq_def resize_def P_seven_def
      bases_def upt2 upt3 eval_nat_numeral)

text \<open>
  Two sequences with gamma draws \<open>7 / 2\<close>: two draws, two sequences of length 3.
\<close>

theorem one_gamma_draw_per_sequence_witness:
  "(0 :: real) < 1 \<and>
   create_sequences P_seven (\<lambda>d. 0) 2 10 1 0
     = ([''TTT'', ''TTT''], 2, [Finite (7 / 2), Finite (7 / 2)]) \<and>
   to_uint32 (\<lambda>d. 0) (Finite (7 / 2)) = 3"
  using one_gamma_draw_per_sequence
      [where len_sd = 1 and P = P_seven and ub = "\<lambda>d. 0" and n_seqs = 2 and len_mean = 10 and e = 0]
    create_P_seven
  by (simp add: to_uint32_def)

text \<open>
  Claim C6 as stated fails: when every gamma draw is not finite, a call for one sequence
  makes one draw (the engine state counts them), converts it (here the conversion yields
  0, raised to 1) and returns a sequence; it neither draws again nor fails.
\<close>

theorem nonfinite_draw_used_once:
  "create_sequences P_nonfinite (\<lambda>d. 0) 1 10 1 0 = ([''T''], 1, [NonFinite])"
  by (simp add: create_sequences_def seq_len_def to_uint32_def fill_seq_def resize_def
      P_nonfinite_def bases_def)

text \<open>
  Claim C7 fails on the code: with \<open>len_mean = 0\<close> and \<open>len_sd = 0\<close> the branch
  \<^verbatim>\<open>else len = len_mean;\<close> sets the length 0, and the call for one sequence returns one
  empty sequence.
\<close>

theorem empty_sequence_generated:
  "create_sequences P_nonfinite (\<lambda>d. 0) 1 0 0 0 = ([ [] ], 0, [])"
  by (simp add: create_sequences_def seq_len_def to_uint32_def fill_seq_def resize_def)

text \<open>
  The two parts of claim C7 that hold: with \<open>len_sd > 0\<close> no sequence is empty, and
  otherwise every sequence has the length \<open>len_mean\<close> converts to.
\<close>

lemma nonempty_when_sd_positive:
  assumes "len_sd > 0" "i < n_seqs"
  shows "fst (create_sequences P ub n_seqs len_mean len_sd e) ! i \<noteq> []"
proof -
  obtain out e' ds where c: "create_sequences P ub n_seqs len_mean len_sd e = (out, e', ds)"
    by (metis prod_cases3)
  have "length (out ! i) = (if to_uint32 ub (ds ! i) < 1 then 1 else to_uint32 ub (ds ! i))"
    using create_sequences_lengths [of P ub n_seqs len_mean len_sd e] c assms by auto
  then have "0 < length (out ! i)" by (simp split: if_splits)
  then show ?thesis using c by auto
qed

lemma fixed_length_when_sd_not_positive:
  assumes "\<not> len_sd > 0" "i < n_seqs"
  shows "length (fst (create_sequences P ub n_seqs len_mean len_sd e) ! i)
           = to_uint32 ub (Finite len_mean)"
  using create_sequences_lengths [of P ub n_seqs len_mean len_sd e] assms by auto

section \<open>The mutation log: the invariant and copying\<close>

lemma objs_upd [simp]: "objs (upd this f m) = (objs m)(this := f (objs m this))"
  and heap_upd [simp]: "heap (upd this f m) = heap m"
  by (simp_all add: upd_def)

lemma fill_step_objs:
  "\<exists>p. objs (fill_step this other i m) =
         (objs m)(this := (objs m this)\<lparr>nucleos := (nucleos (objs m this))[i := p]\<rparr>)"
  by (auto simp: fill_step_def split: prod.splits)

lemma fold_fill_step_shape:
  "\<exists>ns. length ns = length (nucleos (objs m this)) \<and>
        objs (fold (fill_step this other) is m) = (objs m)(this := (objs m this)\<lparr>nucleos := ns\<rparr>)"
proof (induction "is" arbitrary: m)
  case Nil
  show ?case by (intro exI [of _ "nucleos (objs m this)"]) simp
next
  case (Cons i "is")
  obtain p where p: "objs (fill_step this other i m) =
         (objs m)(this := (objs m this)\<lparr>nucleos := (nucleos (objs m this))[i := p]\<rparr>)"
    using fill_step_objs by blast
  from Cons [of "fill_step this other i m"] obtain ns where
    "length ns = length (nucleos (objs (fill_step this other i m) this))"
    "objs (fold (fill_step this other) is (fill_step this other i m)) =
       (objs (fill_step this other i m))
         (this := (objs (fill_step this other i m) this)\<lparr>nucleos := ns\<rparr>)"
    by blast
  then show ?case by (intro exI [of _ ns]) (simp add: p)
qed

lemma fill_all_shape:
  "\<exists>ns. length ns = length (nucleos (objs m this)) \<and>
        objs (fill_all this other m) = (objs m)(this := (objs m this)\<lparr>nucleos := ns\<rparr>)"
  unfolding fill_all_def by (rule fold_fill_step_shape)

lemma fold_heap_only:
  "objs (fold (\<lambda>i m. m\<lparr>heap := g i m\<rparr>) is m) = objs m"
  by (induction "is" arbitrary: m) simp_all

lemma delete_all_objs [simp]: "objs (delete_all this m) = objs m"
  unfolding delete_all_def by (rule fold_heap_only)

lemma copy_ctor_objs:
  "\<exists>ns. length ns = length (nucleos (objs m other)) \<and>
     objs (copy_ctor this other m) = (objs m)(this :=
        \<lparr>size_modifier = size_modifier (objs m other), old_pos = old_pos (objs m other),
         new_pos = new_pos (objs m other), nucleos = ns\<rparr>)"
proof -
  let ?m0 = "m\<lparr>objs := (objs m)(this :=
            \<lparr>size_modifier = size_modifier (objs m other), old_pos = old_pos (objs m other),
             new_pos = new_pos (objs m other),
             nucleos = replicate (length (nucleos (objs m other))) None\<rparr>)\<rparr>"
  from fill_all_shape [of ?m0 this other] obtain ns where
    "length ns = length (nucleos (objs ?m0 this))"
    "objs (fill_all this other ?m0) = (objs ?m0)(this := (objs ?m0 this)\<lparr>nucleos := ns\<rparr>)"
    by blast
  then show ?thesis
    by (intro exI [of _ ns]) (simp add: copy_ctor_def)
qed

lemma copy_assign_objs:
  "\<exists>ns. length ns = length (nucleos (objs m other)) \<and>
     objs (copy_assign this other m) = (objs m)(this :=
        \<lparr>size_modifier = size_modifier (objs m other), old_pos = old_pos (objs m other),
         new_pos = new_pos (objs m other), nucleos = ns\<rparr>)"
proof -
  let ?m1 = "upd this (\<lambda>t. t\<lparr>size_modifier := size_modifier (objs m other)\<rparr>) m"
  let ?m2 = "upd this (\<lambda>t. t\<lparr>old_pos := old_pos (objs ?m1 other)\<rparr>) ?m1"
  let ?m3 = "upd this (\<lambda>t. t\<lparr>new_pos := new_pos (objs ?m2 other)\<rparr>) ?m2"
  let ?m4 = "delete_all this ?m3"
  let ?m5 = "upd this (\<lambda>t. t\<lparr>nucleos := replicate (length (nucleos (objs ?m4 other))) None\<rparr>) ?m4"
  from fill_all_shape [of ?m5 this other] obtain ns where
    n: "length ns = length (nucleos (objs ?m5 this))"
    "objs (fill_all this other ?m5) = (objs ?m5)(this := (objs ?m5 this)\<lparr>nucleos := ns\<rparr>)"
    by blast
  have "length ns = length (nucleos (objs m other))"
    using n(1) by (cases "this = other") simp_all
  moreover have "objs (copy_assign this other m) = (objs m)(this :=
        \<lparr>size_modifier = size_modifier (objs m other), old_pos = old_pos (objs m other),
         new_pos = new_pos (objs m other), nucleos = ns\<rparr>)"
    unfolding copy_assign_def Let_def n(2)
    by (cases "this = other") (simp_all add: fun_eq_iff)
  ultimately show ?thesis by blast
qed

lemma equal_lengths_sizes:
  "equal_lengths t \<Longrightarrow>
     size_log t = length (size_modifier t) \<and> size_log t = length (new_pos t) \<and>
     size_log t = length (nucleos t) \<and>
     (empty_log t \<longleftrightarrow> size_modifier t = [] \<and> new_pos t = [] \<and> nucleos t = [])"
  by (auto simp: equal_lengths_def size_log_def empty_log_def)

lemma run_op_equal_lengths:
  assumes "op_pre this op m"
  shows "equal_lengths (objs (run_op this op m) this)"
proof (cases op)
  case (Push_front sm op np nts)
  then show ?thesis using assms
    by (auto simp: push_front_def Let_def equal_lengths_def split: prod.splits)
next
  case (Push_front_char sm op np nt)
  then show ?thesis using assms
    by (auto simp: push_front_char_def Let_def equal_lengths_def split: prod.splits)
next
  case (Push_back sm op np nts)
  then show ?thesis using assms
    by (auto simp: push_back_def Let_def equal_lengths_def split: prod.splits)
next
  case (Push_back_char sm op np nt)
  then show ?thesis using assms
    by (auto simp: push_back_char_def Let_def equal_lengths_def split: prod.splits)
next
  case (Insert ind sm op np nts)
  then show ?thesis using assms
    by (auto simp: insert_log_def insert_at_def Let_def equal_lengths_def size_log_def
        split: prod.splits)
next
  case (Insert_char ind sm op np nt)
  then show ?thesis using assms
    by (auto simp: insert_log_char_def insert_at_def Let_def equal_lengths_def size_log_def
        split: prod.splits)
next
  case (Erase ind)
  then show ?thesis using assms
    by (auto simp: erase_def erase_at_def Let_def equal_lengths_def size_log_def)
next
  case (Erase_range ind1 ind2)
  then show ?thesis using assms
    by (auto simp: erase2_def erase_range_def Let_def equal_lengths_def size_log_def fold_heap_only)
next
  case Clear
  then show ?thesis using assms
    by (auto simp: clear_def equal_lengths_def)
next
  case (Copy_construct other)
  then show ?thesis using assms copy_ctor_objs [of m other this]
    by (auto simp: equal_lengths_def)
next
  case (Copy_assign other)
  then show ?thesis using assms copy_assign_objs [of m other this]
    by (auto simp: equal_lengths_def)
qed

lemma run_op_frame:
  assumes "ob \<noteq> this"
  shows "objs (run_op this op m) ob = objs m ob"
proof (cases op)
  case (Copy_construct other)
  then show ?thesis using assms copy_ctor_objs [of m other this] by auto
next
  case (Copy_assign other)
  then show ?thesis using assms copy_assign_objs [of m other this] by auto
qed (use assms in \<open>auto simp: push_front_def push_front_char_def push_back_def push_back_char_def
      insert_log_def insert_log_char_def erase_def erase2_def clear_def Let_def fold_heap_only
      split: prod.splits\<close>)

text \<open>
  Claim C10. Every public operation on a log (\<^verbatim>\<open>push_front\<close>, \<^verbatim>\<open>push_back\<close>, \<^verbatim>\<open>insert\<close>,
  both forms of \<^verbatim>\<open>erase\<close>, \<^verbatim>\<open>clear\<close>, copy construction and copy assignment), entered
  with the four deques of equal length (those of the source, for the copy operations) and
  with an index in range, leaves the four deques of the log of equal length and every
  other log as it was; so \<^verbatim>\<open>size()\<close> and \<^verbatim>\<open>empty()\<close>, which read \<^verbatim>\<open>old_pos\<close> only,
  describe all four.
\<close>

theorem equal_lengths_preserved:
  assumes "op_pre this op m"
  shows "equal_lengths (objs (run_op this op m) this) \<and>
         (\<forall>ob. ob \<noteq> this \<longrightarrow> objs (run_op this op m) ob = objs m ob) \<and>
         size_log (objs (run_op this op m) this) = length (size_modifier (objs (run_op this op m) this)) \<and>
         size_log (objs (run_op this op m) this) = length (new_pos (objs (run_op this op m) this)) \<and>
         size_log (objs (run_op this op m) this) = length (nucleos (objs (run_op this op m) this)) \<and>
         (empty_log (objs (run_op this op m) this) \<longleftrightarrow>
            size_modifier (objs (run_op this op m) this) = [] \<and>
            new_pos (objs (run_op this op m) this) = [] \<and>
            nucleos (objs (run_op this op m) this) = [])"
  using run_op_equal_lengths [OF assms] equal_lengths_sizes [of "objs (run_op this op m) this"]
    run_op_frame [of _ this op m]
  by blast

lemma m_ex_simps:
  "heap m_ex = [Some [CHR ''A'', CHR ''C'', NUL]]"
  "objs m_ex 0 = \<lparr>size_modifier = [2], old_pos = [3], new_pos = [3], nucleos = [Some 0]\<rparr>"
  "objs m_ex (Suc n) = \<lparr>size_modifier = [], old_pos = [], new_pos = [], nucleos = []\<rparr>"
  by (simp_all add: m_ex_def)

text \<open>
  An insertion in the middle, a copy assignment to another log and the erasure of a range,
  on a log with one record.
\<close>

theorem equal_lengths_preserved_witness:
  "op_pre 0 (Insert_char 1 0 5 6 CHR ''T'') m_ex \<and>
   objs (run_op 0 (Insert_char 1 0 5 6 CHR ''T'') m_ex) 0
     = \<lparr>size_modifier = [2, 0], old_pos = [3, 5], new_pos = [3, 6], nucleos = [Some 0, Some 1]\<rparr> \<and>
   size_log (objs (run_op 0 (Insert_char 1 0 5 6 CHR ''T'') m_ex) 0) = 2 \<and>
   op_pre 1 (Copy_assign 0) m_ex \<and>
   equal_lengths (objs (run_op 1 (Copy_assign 0) m_ex) 1) \<and>
   op_pre 0 (Erase_range 0 1) m_ex \<and>
   empty_log (objs (run_op 0 (Erase_range 0 1) m_ex) 0)"
proof -
  have a: "op_pre 0 (Insert_char 1 0 5 6 CHR ''T'') m_ex"
    by (simp add: m_ex_simps equal_lengths_def size_log_def)
  have v: "objs (run_op 0 (Insert_char 1 0 5 6 CHR ''T'') m_ex) 0
     = \<lparr>size_modifier = [2, 0], old_pos = [3, 5], new_pos = [3, 6], nucleos = [Some 0, Some 1]\<rparr>"
    by (simp add: m_ex_simps insert_log_char_def insert_at_def fill_one_nucleos_char_def
        new_array_def)
  have s: "size_log (objs (run_op 0 (Insert_char 1 0 5 6 CHR ''T'') m_ex) 0) = 2"
    unfolding v by (simp add: size_log_def)
  have b: "op_pre 1 (Copy_assign 0) m_ex"
    by (simp add: m_ex_simps equal_lengths_def)
  have c: "op_pre 0 (Erase_range 0 1) m_ex"
    by (simp add: m_ex_simps equal_lengths_def size_log_def)
  have o: "old_pos (objs (run_op 0 (Erase_range 0 1) m_ex) 0) = []"
    by (simp add: m_ex_simps erase2_def erase_range_def)
  have e: "empty_log (objs (run_op 0 (Erase_range 0 1) m_ex) 0)"
    using o by (simp add: empty_log_def)
  show ?thesis
    using a v s b c e equal_lengths_preserved [OF b] by blast
qed

text \<open>
  Claim C9 fails on the code when a log is assigned to itself: the log that held the
  string \<open>AC\<close> is left with a null pointer, its array freed. \<^verbatim>\<open>operator=\<close> frees every
  string of \<^verbatim>\<open>*this\<close> and resets \<^verbatim>\<open>nucleos\<close> before it reads \<^verbatim>\<open>other.nucleos\<close>.
\<close>

theorem self_assignment_loses_strings:
  "c_str (heap m_ex) (nucleos (objs m_ex 0) ! 0) = Some ''AC'' \<and>
   objs (copy_assign 0 0 m_ex) 0
     = \<lparr>size_modifier = [2], old_pos = [3], new_pos = [3], nucleos = [None]\<rparr> \<and>
   heap (copy_assign 0 0 m_ex) = [None] \<and>
   c_str (heap (copy_assign 0 0 m_ex)) (nucleos (objs (copy_assign 0 0 m_ex) 0) ! 0) = None"
  by (simp add: copy_assign_def delete_all_def fill_all_def fill_step_def fill_one_nucleos_def
      delete_array_def m_ex_simps c_str_def fetch_def NUL_def upd_def)

lemma copied_array:
  "fold (\<lambda>i arr. arr[i := src ! i]) [0..<n] (replicate (n + 1) c) = map ((!) src) [0..<n] @ [c]"
proof -
  have r: "replicate (n + 1) c = replicate n c @ [c]"
    by (simp add: replicate_append_same)
  show ?thesis
    unfolding r using fold_update_range [of 0 n "replicate n c @ [c]" "(!) src"] by simp
qed

lemma take_strlen: "take (strlen bytes) bytes = takeWhile (\<lambda>c. c \<noteq> NUL) bytes"
  unfolding strlen_def by (induction bytes) simp_all

lemma map_nth_take: "n \<le> length xs \<Longrightarrow> map ((!) xs) [0..<n] = take n xs"
  by (rule nth_equalityI) simp_all

lemma strlen_le: "strlen bytes \<le> length bytes"
  unfolding strlen_def by (rule length_takeWhile_le)

lemma fill_one_nucleos_Some:
  "fill_one_nucleos (Some a) slot h =
     (Some (length h), h @ [Some (takeWhile (\<lambda>c. c \<noteq> NUL) (fetch h a) @ [NUL])])"
proof -
  let ?src = "fetch h a" and ?n = "strlen (fetch h a)"
  have t: "map ((!) ?src) [0..<?n] = takeWhile (\<lambda>c. c \<noteq> NUL) ?src"
    by (simp only: map_nth_take [OF strlen_le] take_strlen)
  have l: "length (takeWhile (\<lambda>c. c \<noteq> NUL) ?src) = ?n"
    by (simp add: strlen_def)
  have "(fold (\<lambda>i arr. arr[i := ?src ! i]) [0..<?n] (replicate (?n + 1) NUL))[?n := NUL]
          = takeWhile (\<lambda>c. c \<noteq> NUL) ?src @ [NUL]"
    unfolding copied_array t using l by (metis list_update_length)
  then show ?thesis
    by (simp only: fill_one_nucleos_def Let_def new_array_def option.case prod.case)
qed

lemma fill_one_nucleos_None: "fill_one_nucleos None slot h = (slot, h)"
  by (simp add: fill_one_nucleos_def)

lemma fetch_append: "a < length h \<Longrightarrow> fetch (h @ h') a = fetch h a"
  by (simp add: fetch_def nth_append)

lemma c_str_copy:
  "c_str (h @ [Some (takeWhile (\<lambda>c. c \<noteq> NUL) bytes @ [NUL])] @ h') (Some (length h))
     = Some (takeWhile (\<lambda>c. c \<noteq> NUL) bytes)"
proof -
  have "takeWhile (\<lambda>c. c \<noteq> NUL) (takeWhile (\<lambda>c. c \<noteq> NUL) bytes @ [NUL])
          = takeWhile (\<lambda>c. c \<noteq> NUL) bytes"
    by (induction bytes) simp_all
  then show ?thesis by (simp add: c_str_def fetch_def nth_append)
qed

subsection \<open>Copying between two logs\<close>

text \<open>
  The loop on memory computes what \<open>dup\<close> computes; \<open>dup\<close> copies every string into a
  fresh array and leaves the arrays that were there alone.
\<close>

lemma addrs_simps [simp]:
  "addrs [] = []" "addrs (None # ps) = addrs ps" "addrs (Some a # ps) = a # addrs ps"
  by (simp_all add: addrs_def)

lemma addrs_append [simp]: "addrs (ps @ qs) = addrs ps @ addrs qs"
proof (induction ps)
  case Nil
  then show ?case by simp
next
  case (Cons p ps)
  then show ?case by (cases p) simp_all
qed

lemma dup_snoc:
  "dup h (ps @ [p]) =
     (case dup h ps of (qs, h1) \<Rightarrow>
        (case fill_one_nucleos p None h1 of (q, h2) \<Rightarrow> (qs @ [q], h2)))"
  by (induction ps arbitrary: h) (auto split: prod.splits)

lemma dup_length: "length (fst (dup h ps)) = length ps"
proof (induction ps arbitrary: h)
  case Nil
  then show ?case by simp
next
  case (Cons p ps)
  obtain q h1 where f: "fill_one_nucleos p None h = (q, h1)" by (cases "fill_one_nucleos p None h")
  obtain qs h2 where d: "dup h1 ps = (qs, h2)" by (cases "dup h1 ps")
  show ?case using Cons [of h1] f d by simp
qed

lemma dup_heap_grows: "\<exists>news. snd (dup h ps) = h @ news"
proof (induction ps arbitrary: h)
  case Nil
  then show ?case by simp
next
  case (Cons p ps)
  obtain q h1 where f: "fill_one_nucleos p None h = (q, h1)" by (cases "fill_one_nucleos p None h")
  have "\<exists>n1. h1 = h @ n1"
    using f by (cases p) (auto simp: fill_one_nucleos_None fill_one_nucleos_Some)
  moreover obtain n2 where "snd (dup h1 ps) = h1 @ n2" using Cons [of h1] by blast
  ultimately show ?case using f by (auto split: prod.splits)
qed

lemma c_str_grow:
  "(case p of None \<Rightarrow> True | Some a \<Rightarrow> a < length h) \<Longrightarrow> c_str (h @ news) p = c_str h p"
  by (cases p) (simp_all add: c_str_def fetch_append)

lemma map_c_str_grow:
  "list_all (\<lambda>a. a < length h) (addrs ps) \<Longrightarrow> map (c_str (h @ news)) ps = map (c_str h) ps"
proof (induction ps)
  case Nil
  then show ?case by simp
next
  case (Cons p ps)
  then show ?case by (cases p) (simp_all add: c_str_grow)
qed

lemma dup_copies:
  "list_all (\<lambda>a. a < length h) (addrs ps) \<Longrightarrow>
   map (c_str (snd (dup h ps))) (fst (dup h ps)) = map (c_str h) ps"
proof (induction ps arbitrary: h)
  case Nil
  then show ?case by simp
next
  case (Cons p ps)
  obtain q h1 where f: "fill_one_nucleos p None h = (q, h1)" by (cases "fill_one_nucleos p None h")
  obtain qs h2 where d: "dup h1 ps = (qs, h2)" by (cases "dup h1 ps")
  obtain n2 where n2: "h2 = h1 @ n2" using dup_heap_grows [of h1 ps] d by auto
  show ?case
  proof (cases p)
    case None
    then have "q = None" "h1 = h" using f by (simp_all add: fill_one_nucleos_None)
    then show ?thesis using Cons.IH [of h] Cons.prems None d f by (simp add: c_str_def)
  next
    case (Some a)
    then have q: "q = Some (length h)"
      and h1: "h1 = h @ [Some (takeWhile (\<lambda>c. c \<noteq> NUL) (fetch h a) @ [NUL])]"
      using f by (simp_all add: fill_one_nucleos_Some)
    have v: "list_all (\<lambda>a. a < length h) (addrs ps)" using Cons.prems Some by simp
    then have "list_all (\<lambda>a. a < length h1) (addrs ps)"
      unfolding h1 by (induction "addrs ps") (auto simp: list_all_iff)
    from Cons.IH [OF this] have "map (c_str h2) qs = map (c_str h1) ps" using d by simp
    also have "\<dots> = map (c_str h) ps" unfolding h1 by (rule map_c_str_grow [OF v])
    finally have tl: "map (c_str h2) qs = map (c_str h) ps" .
    have "c_str h2 q = Some (takeWhile (\<lambda>c. c \<noteq> NUL) (fetch h a))"
      unfolding q n2 h1 using c_str_copy [of h "fetch h a" n2] by simp
    then have "c_str h2 q = c_str h p" using Some by (simp add: c_str_def)
    then show ?thesis using tl f d by simp
  qed
qed

lemma dup_fresh:
  "set (addrs (fst (dup h ps))) \<subseteq> {length h..<length (snd (dup h ps))} \<and>
   distinct (addrs (fst (dup h ps)))"
proof (induction ps arbitrary: h)
  case Nil
  then show ?case by simp
next
  case (Cons p ps)
  obtain q h1 where f: "fill_one_nucleos p None h = (q, h1)" by (cases "fill_one_nucleos p None h")
  obtain qs h2 where d: "dup h1 ps = (qs, h2)" by (cases "dup h1 ps")
  obtain n2 where n2: "h2 = h1 @ n2" using dup_heap_grows [of h1 ps] d by auto
  have ih: "set (addrs qs) \<subseteq> {length h1..<length h2}" "distinct (addrs qs)"
    using Cons [of h1] d by simp_all
  show ?case
  proof (cases p)
    case None
    then have "q = None" "h1 = h" using f by (simp_all add: fill_one_nucleos_None)
    then show ?thesis using ih f d by simp
  next
    case (Some a)
    then have q: "q = Some (length h)"
      and h1: "length h1 = length h + 1"
      using f by (auto simp: fill_one_nucleos_Some)
    have "length h \<notin> set (addrs qs)" using ih(1) h1 by auto
    moreover have "length h < length h2" using n2 h1 by simp
    moreover have "set (addrs qs) \<subseteq> {length h..<length h2}" using ih(1) h1 by auto
    ultimately show ?thesis using ih(2) f d q by simp
  qed
qed

lemma fold_fill_step_dup:
  assumes "this \<noteq> other" "nucleos (objs m this) = replicate (length (nucleos (objs m other))) None"
    and "k \<le> length (nucleos (objs m other))"
  shows "fold (fill_step this other) [0..<k] m =
           m\<lparr>heap := snd (dup (heap m) (take k (nucleos (objs m other)))),
             objs := (objs m)(this := (objs m this)
               \<lparr>nucleos := fst (dup (heap m) (take k (nucleos (objs m other))))
                    @ replicate (length (nucleos (objs m other)) - k) None\<rparr>)\<rparr>"
  using assms(3)
proof (induction k)
  case 0
  have "(objs m this)\<lparr>nucleos := replicate (length (nucleos (objs m other))) None\<rparr> = objs m this"
    by (simp add: assms(2) [symmetric])
  then show ?case by simp
next
  case (Suc k)
  let ?src = "nucleos (objs m other)"
  let ?n = "length ?src"
  obtain qs h1 where d: "dup (heap m) (take k ?src) = (qs, h1)" by (cases "dup (heap m) (take k ?src)")
  have lq: "length qs = k"
    using dup_length [of "heap m" "take k ?src"] d Suc.prems by simp
  let ?mk = "m\<lparr>heap := h1, objs := (objs m)(this := (objs m this)
               \<lparr>nucleos := qs @ replicate (?n - k) None\<rparr>)\<rparr>"
  have "k \<le> ?n" using Suc.prems by simp
  from Suc.IH [OF this] have mk: "fold (fill_step this other) [0..<k] m = ?mk"
    unfolding d by (simp only: fst_conv snd_conv)
  obtain q h2 where f: "fill_one_nucleos (?src ! k) None h1 = (q, h2)"
    by (cases "fill_one_nucleos (?src ! k) None h1")
  have slot: "(qs @ replicate (?n - k) None) ! k = None"
    using lq Suc.prems by (simp add: nth_append)
  have upd_k: "(qs @ replicate (?n - k) None)[k := q] = (qs @ [q]) @ replicate (?n - Suc k) None"
  proof -
    have "replicate (?n - k) (None :: ptr) = None # replicate (?n - Suc k) None"
      using Suc.prems by (cases "?n - k") (simp_all add: Suc_diff_Suc)
    then show ?thesis using lq by (simp add: list_update_append)
  qed
  have step: "fill_step this other k ?mk =
          m\<lparr>heap := h2, objs := (objs m)(this := (objs m this)
               \<lparr>nucleos := (qs @ [q]) @ replicate (?n - Suc k) None\<rparr>)\<rparr>"
    using assms(1) f slot upd_k by (simp add: fill_step_def upd_def)
  have e: "dup (heap m) (take (Suc k) ?src) = (qs @ [q], h2)"
    using Suc.prems d f by (simp add: take_Suc_conv_app_nth dup_snoc)
  have "fold (fill_step this other) [0..<Suc k] m
          = fill_step this other k (fold (fill_step this other) [0..<k] m)"
    by simp
  also have "\<dots> = fill_step this other k ?mk"
    by (simp only: mk)
  also note step
  finally show ?case
    unfolding e by (simp only: fst_conv snd_conv)
qed

lemma fill_all_dup:
  assumes "this \<noteq> other" "nucleos (objs m this) = replicate (length (nucleos (objs m other))) None"
  shows "fill_all this other m =
           m\<lparr>heap := snd (dup (heap m) (nucleos (objs m other))),
             objs := (objs m)(this := (objs m this)
               \<lparr>nucleos := fst (dup (heap m) (nucleos (objs m other)))\<rparr>)\<rparr>"
  using fold_fill_step_dup [OF assms, of "length (nucleos (objs m other))"] assms(2)
  by (simp add: fill_all_def)

lemma copy_ctor_dup:
  assumes "this \<noteq> other"
  shows "copy_ctor this other m =
           m\<lparr>heap := snd (dup (heap m) (nucleos (objs m other))),
             objs := (objs m)(this :=
               \<lparr>size_modifier = size_modifier (objs m other), old_pos = old_pos (objs m other),
                new_pos = new_pos (objs m other),
                nucleos = fst (dup (heap m) (nucleos (objs m other)))\<rparr>)\<rparr>"
  unfolding copy_ctor_def using assms
  by (subst fill_all_dup) simp_all

lemma fold_delete_take:
  "k \<le> length (nucleos (objs m this)) \<Longrightarrow>
   fold (\<lambda>i m. m\<lparr>heap := delete_array (nucleos (objs m this) ! i) (heap m)\<rparr>) [0..<k] m =
     m\<lparr>heap := fold delete_array (take k (nucleos (objs m this))) (heap m)\<rparr>"
proof (induction k)
  case 0
  then show ?case by simp
next
  case (Suc k)
  then show ?case by (simp add: take_Suc_conv_app_nth)
qed

lemma delete_all_heap:
  "delete_all this m = m\<lparr>heap := fold delete_array (nucleos (objs m this)) (heap m)\<rparr>"
  using fold_delete_take [of "length (nucleos (objs m this))" m this]
  by (simp add: delete_all_def)

lemma fold_delete_array:
  "length (fold delete_array ps h) = length h \<and>
   (a \<notin> set (addrs ps) \<longrightarrow> fetch (fold delete_array ps h) a = fetch h a)"
proof (induction ps arbitrary: h)
  case Nil
  then show ?case by simp
next
  case (Cons p ps)
  show ?case
  proof (cases p)
    case None
    then show ?thesis using Cons [of h] by (simp add: delete_array_def)
  next
    case (Some b)
    then show ?thesis using Cons [of "h[b := None]"]
      by (auto simp: delete_array_def fetch_def)
  qed
qed

lemma all_fields:
  "t\<lparr>size_modifier := a, old_pos := b, new_pos := c, nucleos := d\<rparr> =
     \<lparr>size_modifier = a, old_pos = b, new_pos = c, nucleos = d\<rparr>"
  by (cases t) simp

lemma copy_assign_dup:
  assumes "this \<noteq> other"
  shows "copy_assign this other m =
           m\<lparr>heap := snd (dup (fold delete_array (nucleos (objs m this)) (heap m))
                             (nucleos (objs m other))),
             objs := (objs m)(this :=
               \<lparr>size_modifier = size_modifier (objs m other), old_pos = old_pos (objs m other),
                new_pos = new_pos (objs m other),
                nucleos = fst (dup (fold delete_array (nucleos (objs m this)) (heap m))
                                 (nucleos (objs m other)))\<rparr>)\<rparr>"
  unfolding copy_assign_def Let_def delete_all_heap using assms
  by (subst fill_all_dup) (simp_all add: upd_def all_fields)

lemma dup_duplicates:
  assumes "list_all (\<lambda>a. a < length h) (addrs ps)"
  shows "map (c_str (snd (dup h ps))) (fst (dup h ps)) = map (c_str h) ps \<and>
         map (c_str (snd (dup h ps))) ps = map (c_str h) ps \<and>
         set (addrs (fst (dup h ps))) \<inter> set (addrs ps) = {} \<and>
         distinct (addrs (fst (dup h ps)))"
proof -
  obtain news where g: "snd (dup h ps) = h @ news" using dup_heap_grows by blast
  have "set (addrs ps) \<subseteq> {..<length h}" using assms by (auto simp: list_all_iff)
  moreover have "set (addrs (fst (dup h ps))) \<subseteq> {length h..}" using dup_fresh [of h ps] by auto
  ultimately have "set (addrs (fst (dup h ps))) \<inter> set (addrs ps) = {}" by fastforce
  then show ?thesis
    using dup_copies [OF assms] dup_fresh [of h ps] map_c_str_grow [OF assms, of news] g by simp
qed

text \<open>
  For two distinct logs, the source holding valid pointers: the copy has the source's
  three position sequences and, record by record, the source's strings (a null pointer
  for a null pointer), in arrays that are fresh, pairwise distinct and none of the
  source's; the source log and its strings are as before. For the assignment, the
  arrays the destination held before must be none of the source's.
\<close>

lemma copy_ctor_duplicates:
  assumes "this \<noteq> other" "valid_ptrs (heap m) (objs m other)"
  shows "size_modifier (objs (copy_ctor this other m) this) = size_modifier (objs m other) \<and>
         old_pos (objs (copy_ctor this other m) this) = old_pos (objs m other) \<and>
         new_pos (objs (copy_ctor this other m) this) = new_pos (objs m other) \<and>
         map (c_str (heap (copy_ctor this other m))) (nucleos (objs (copy_ctor this other m) this))
           = map (c_str (heap m)) (nucleos (objs m other)) \<and>
         set (addrs (nucleos (objs (copy_ctor this other m) this)))
           \<inter> set (addrs (nucleos (objs m other))) = {} \<and>
         distinct (addrs (nucleos (objs (copy_ctor this other m) this))) \<and>
         objs (copy_ctor this other m) other = objs m other \<and>
         map (c_str (heap (copy_ctor this other m))) (nucleos (objs m other))
           = map (c_str (heap m)) (nucleos (objs m other))"
  using dup_duplicates [of "heap m" "nucleos (objs m other)"] assms
  by (simp add: copy_ctor_dup valid_ptrs_def)

lemma c_str_after_delete:
  "set (addrs ps) \<inter> set (addrs ds) = {} \<Longrightarrow>
   map (c_str (fold delete_array ds h)) ps = map (c_str h) ps"
proof (induction ps)
  case Nil
  then show ?case by simp
next
  case (Cons p ps)
  show ?case
  proof (cases p)
    case None
    then show ?thesis using Cons by (simp add: c_str_def)
  next
    case (Some a)
    then have "a \<notin> set (addrs ds)" using Cons.prems by auto
    then have "fetch (fold delete_array ds h) a = fetch h a"
      using fold_delete_array [of ds h a] by simp
    then show ?thesis using Cons Some by (simp add: c_str_def)
  qed
qed

lemma copy_assign_duplicates:
  assumes "this \<noteq> other" "valid_ptrs (heap m) (objs m other)"
    and "set (addrs (nucleos (objs m other))) \<inter> set (addrs (nucleos (objs m this))) = {}"
  shows "size_modifier (objs (copy_assign this other m) this) = size_modifier (objs m other) \<and>
         old_pos (objs (copy_assign this other m) this) = old_pos (objs m other) \<and>
         new_pos (objs (copy_assign this other m) this) = new_pos (objs m other) \<and>
         map (c_str (heap (copy_assign this other m))) (nucleos (objs (copy_assign this other m) this))
           = map (c_str (heap m)) (nucleos (objs m other)) \<and>
         set (addrs (nucleos (objs (copy_assign this other m) this)))
           \<inter> set (addrs (nucleos (objs m other))) = {} \<and>
         distinct (addrs (nucleos (objs (copy_assign this other m) this))) \<and>
         objs (copy_assign this other m) other = objs m other \<and>
         map (c_str (heap (copy_assign this other m))) (nucleos (objs m other))
           = map (c_str (heap m)) (nucleos (objs m other))"
proof -
  let ?h4 = "fold delete_array (nucleos (objs m this)) (heap m)"
  have l: "length ?h4 = length (heap m)"
    using fold_delete_array [of "nucleos (objs m this)" "heap m"] by simp
  have v: "list_all (\<lambda>a. a < length ?h4) (addrs (nucleos (objs m other)))"
    using assms(2) by (simp add: valid_ptrs_def l)
  have s: "map (c_str ?h4) (nucleos (objs m other)) = map (c_str (heap m)) (nucleos (objs m other))"
    by (rule c_str_after_delete [OF assms(3)])
  show ?thesis
    using dup_duplicates [OF v] assms(1) s
    by (simp add: copy_assign_dup)
qed

text \<open>
  The log with the string \<open>AC\<close> copied to address 1, by the constructor and by the
  assignment: the copy's string is in a second array, and the source is as it was.
\<close>

lemma copy_example:
  "objs (copy_ctor 1 0 m_ex) 1
     = \<lparr>size_modifier = [2], old_pos = [3], new_pos = [3], nucleos = [Some 1]\<rparr> \<and>
   heap (copy_ctor 1 0 m_ex) = [Some [CHR ''A'', CHR ''C'', NUL], Some [CHR ''A'', CHR ''C'', NUL]] \<and>
   objs (copy_ctor 1 0 m_ex) 0 = objs m_ex 0 \<and>
   copy_assign 1 0 m_ex = copy_ctor 1 0 m_ex"
proof -
  have d: "fill_one_nucleos (Some 0) None [Some [CHR ''A'', CHR ''C'', NUL]]
             = (Some 1, [Some [CHR ''A'', CHR ''C'', NUL], Some [CHR ''A'', CHR ''C'', NUL]])"
    by (simp add: fill_one_nucleos_Some fetch_def NUL_def)
  have n: "nucleos (objs m_ex (Suc 0)) = []"
    by (simp add: m_ex_simps)
  show ?thesis
    by (simp add: copy_ctor_dup copy_assign_dup d n m_ex_simps)
qed

end
